theory Spec2Isabelle
  imports Complex_Main "HOL-Library.Multiset"
begin

section \<open>Values and errors\<close>

text \<open>
  The module is \<^verbatim>\<open>modules/models/MOSS.py\<close>. Tensors of floats are lists of reals (a row) and
  lists of rows (a batch); rounding is not modelled. The non-finite floats the code can produce
  are modelled where they arise: the fill value \<^verbatim>\<open>-float("Inf")\<close> of the logit filter is the
  constructor \<open>NegInf\<close>, and NaN is handled at the places where it can appear (the softmax
  of a row without a finite entry, in the top-p stage and before the draw, and the division by
  a zero temperature). Integer tensors (\<^verbatim>\<open>torch.int64\<close>) are lists of \<open>int\<close>.
  An exception is a value of type \<open>error\<close>; the tensor operations raise
  \<^verbatim>\<open>RuntimeError\<close> (shapes, \<^verbatim>\<open>gather\<close>, \<^verbatim>\<open>topk\<close>, \<^verbatim>\<open>multinomial\<close>) or
  \<^verbatim>\<open>IndexError\<close> (indexing).
\<close>

datatype error = RuntimeError | IndexError

datatype logit = NegInf | Fin real

instantiation logit :: linorder
begin

definition less_eq_logit :: "logit \<Rightarrow> logit \<Rightarrow> bool" where
  "less_eq_logit a b =
     (case a of NegInf \<Rightarrow> True | Fin x \<Rightarrow> (case b of NegInf \<Rightarrow> False | Fin y \<Rightarrow> x \<le> y))"

definition less_logit :: "logit \<Rightarrow> logit \<Rightarrow> bool" where
  "less_logit a b =
     (case b of NegInf \<Rightarrow> False | Fin y \<Rightarrow> (case a of NegInf \<Rightarrow> True | Fin x \<Rightarrow> x < y))"

instance
  by standard (auto simp: less_eq_logit_def less_logit_def split: logit.splits)

end

text \<open>Sequencing of fallible steps: the first exception raised ends the computation.\<close>

definition bindE :: "error + 'a \<Rightarrow> ('a \<Rightarrow> error + 'b) \<Rightarrow> error + 'b" where
  "bindE m f = (case m of Inl e \<Rightarrow> Inl e | Inr x \<Rightarrow> f x)"

fun mapE :: "('a \<Rightarrow> error + 'b) \<Rightarrow> 'a list \<Rightarrow> error + 'b list" where
  "mapE f [] = Inr []"
| "mapE f (x # xs) = bindE (f x) (\<lambda>y. bindE (mapE f xs) (\<lambda>ys. Inr (y # ys)))"

section \<open>The logit filter (\<^verbatim>\<open>top_k_top_p_filtering\<close>)\<close>

text \<open>
  \<^verbatim>\<open>torch.sort(row, descending=True)\<close> returns the sorted values and the indices they came
  from. The order of ties is left open by the library; the model is a stable insertion sort.
\<close>

fun insort_desc :: "logit list \<Rightarrow> nat \<Rightarrow> nat list \<Rightarrow> nat list" where
  "insort_desc row i [] = [i]"
| "insort_desc row i (j # js) =
     (if row ! i < row ! j then j # insort_desc row i js else i # j # js)"

definition sorted_indices :: "logit list \<Rightarrow> nat list" where
  "sorted_indices row = foldr (insort_desc row) [0..<length row] []"

definition sorted_logits :: "logit list \<Rightarrow> logit list" where
  "sorted_logits row = map (\<lambda>i. row ! i) (sorted_indices row)"

text \<open>
  The top-k stage (lines 285-288). \<^verbatim>\<open>torch.topk(logits, top_k)\<close> raises when \<open>top_k\<close> exceeds
  the row length; its values come largest first, so \<^verbatim>\<open>[..., -1, None]\<close> is the \<open>top_k\<close>-th
  largest value of the row.
\<close>

definition kth_largest :: "logit list \<Rightarrow> nat \<Rightarrow> logit" where
  "kth_largest row k = sorted_logits row ! (k - 1)"

definition top_k_stage :: "int \<Rightarrow> logit list \<Rightarrow> error + logit list" where
  "top_k_stage top_k row =
     (if top_k > 0 then
        (if nat top_k > length row then Inl RuntimeError
         else Inr (map (\<lambda>x. if x < kth_largest row (nat top_k) then NegInf else x) row))
      else Inr row)"

text \<open>
  The top-p stage (lines 290-304), with \<^verbatim>\<open>min_tokens_to_keep\<close> at its default 1.
  \<^verbatim>\<open>torch.softmax\<close> of a row whose entries are all \<open>-inf\<close> is NaN everywhere, and a
  comparison with NaN is false: nothing is marked for removal then.
\<close>

fun expl :: "logit \<Rightarrow> real" where
  "expl NegInf = 0"
| "expl (Fin x) = exp x"

definition softmax :: "logit list \<Rightarrow> real list" where
  "softmax row = map (\<lambda>x. expl x / sum_list (map expl row)) row"

fun cumsum_from :: "real \<Rightarrow> real list \<Rightarrow> real list" where
  "cumsum_from a [] = []"
| "cumsum_from a (x # xs) = (a + x) # cumsum_from (a + x) xs"

definition cumsum :: "real list \<Rightarrow> real list" where
  "cumsum xs = cumsum_from 0 xs"

definition cumulative_probs :: "logit list \<Rightarrow> real list" where
  "cumulative_probs row = cumsum (softmax (sorted_logits row))"

definition all_neg_inf :: "logit list \<Rightarrow> bool" where
  "all_neg_inf row = list_all (\<lambda>x. x = NegInf) row"

text \<open>
  \<^verbatim>\<open>t.scatter(1, index, src)\<close>: a copy of \<open>t\<close> with \<open>src[j]\<close> written at position
  \<open>index[j]\<close>, for every \<open>j\<close>.
\<close>

definition scatter :: "'a list \<Rightarrow> nat list \<Rightarrow> 'a list \<Rightarrow> 'a list" where
  "scatter t index src = fold (\<lambda>(i, v) acc. acc[i := v]) (zip index src) t"

definition top_p_stage :: "real \<Rightarrow> logit list \<Rightarrow> error + logit list" where
  "top_p_stage top_p row =
     (if top_p < 1 then
        (let sorted_indices_to_remove =
               (if all_neg_inf row then replicate (length row) False
                else map (\<lambda>c. c > top_p) (cumulative_probs row))
         in if row = [] then Inl IndexError
            else
              (let shifted = False # butlast sorted_indices_to_remove;
                   indices_to_remove = scatter shifted (sorted_indices row) shifted
               in Inr (map (\<lambda>(x, r). if r then NegInf else x) (zip row indices_to_remove))))
      else Inr row)"

text \<open>
  The whole filter on a batch: the top-k stage on every row, then the top-p stage on the result.
  The source assigns the fill value into its argument (\<^verbatim>\<open>logits[indices_to_remove] = filter_value\<close>)
  and returns the argument. \<open>top_k_top_p_filtering\<close> is the value returned;
  \<open>top_k_top_p_filtering_store\<close> is the same call on a store of tensors, where the
  argument is a reference, both assignments write through it, and the reference is returned.
\<close>

definition top_k_top_p_filtering :: "logit list list \<Rightarrow> int \<Rightarrow> real \<Rightarrow> error + logit list list" where
  "top_k_top_p_filtering logits top_k top_p =
     bindE (mapE (top_k_stage top_k) logits) (\<lambda>logits. mapE (top_p_stage top_p) logits)"

type_synonym ref = nat
type_synonym store = "ref \<Rightarrow> logit list list"

definition top_k_top_p_filtering_store :: "store \<Rightarrow> ref \<Rightarrow> int \<Rightarrow> real \<Rightarrow> error + (store \<times> ref)" where
  "top_k_top_p_filtering_store s logits top_k top_p =
     bindE (mapE (top_k_stage top_k) (s logits)) (\<lambda>t1.
       let s1 = s(logits := t1) in
       bindE (mapE (top_p_stage top_p) (s1 logits)) (\<lambda>t2.
         let s2 = s1(logits := t2) in Inr (s2, logits)))"

section \<open>Repetition penalty (lines 241-249)\<close>

text \<open>
  \<^verbatim>\<open>logits.gather(1, input_ids)\<close> reads the logit of every token id of the sequence and raises
  when an id is not a position of the row; \<^verbatim>\<open>torch.where\<close> rescales each value read;
  \<^verbatim>\<open>logits.scatter_(1, input_ids, score)\<close> writes the values back at the same positions.
\<close>

definition gather_row :: "real list \<Rightarrow> int list \<Rightarrow> error + real list" where
  "gather_row row index =
     mapE (\<lambda>t. if 0 \<le> t \<and> nat t < length row then Inr (row ! nat t) else Inl RuntimeError) index"

definition penalize :: "real \<Rightarrow> real \<Rightarrow> real" where
  "penalize rp score = (if score < 0 then score * rp else score / rp)"

definition penalize_row :: "real \<Rightarrow> real list \<Rightarrow> int list \<Rightarrow> error + real list" where
  "penalize_row rp row ids =
     bindE (gather_row row ids) (\<lambda>score.
       Inr (scatter row (map nat ids) (map (penalize rp) score)))"

definition apply_repetition_penalty ::
  "real \<Rightarrow> real list list \<Rightarrow> int list list \<Rightarrow> error + real list list" where
  "apply_repetition_penalty rp logits ids =
     (if rp > 1 then
        (if length logits < length ids then Inl RuntimeError
         else bindE (mapE (\<lambda>(row, t). penalize_row rp row t) (zip logits ids))
                (\<lambda>rows. Inr (rows @ drop (length ids) logits)))
      else Inr logits)"

section \<open>The client and its collaborators\<close>

text \<open>
  \<open>client\<close> holds the attributes of \<^verbatim>\<open>MOSS_Client\<close> that the methods below read;
  \<open>history\<close> is the attribute the base class keeps. \<open>paras\<close> is the dictionary
  \<^verbatim>\<open>forward\<close> receives, with the three keys it reads.
\<close>

record turn =
  role :: string
  content :: string

record paras =
  paras_regulation_start :: int
  paras_length_penalty :: real
  paras_max_time :: real

record client =
  system_prompt :: string
  web_search_switch :: string
  calculator_switch :: string
  equation_solver_switch :: string
  text_to_image_switch :: string
  image_edition_switch :: string
  text_to_speech_switch :: string
  self_top_p :: real
  self_top_k :: int
  self_temperature :: real
  self_repetition_penalty :: real
  max_generation_token :: int
  default_paras :: paras
  vocab_size :: nat
  moss_stopwords :: "int list"
  history :: "turn list"

definition newline :: string where
  "newline = [CHR 0x0A]"

text \<open>
  \<^verbatim>\<open>__init__\<close> (lines 47-91). The text of the system prompt (it holds non-ASCII characters),
  the id the tokenizer gives to \<^verbatim>\<open><eom>\<close>, and the history are passed in.
\<close>

definition MOSS_Client :: "string \<Rightarrow> int \<Rightarrow> turn list \<Rightarrow> client" where
  "MOSS_Client prompt_text eom hist =
     \<lparr>system_prompt = prompt_text,
      web_search_switch = ''- Web search: disabled.'' @ newline,
      calculator_switch = ''- Calculator: disabled.'' @ newline,
      equation_solver_switch = ''- Equation solver: disabled.'' @ newline,
      text_to_image_switch = ''- Text-to-image: disabled.'' @ newline,
      image_edition_switch = ''- Image edition: disabled.'' @ newline,
      text_to_speech_switch = ''- Text-to-speech: disabled.'' @ newline,
      self_top_p = 0.8,
      self_top_k = 40,
      self_temperature = 0.7,
      self_repetition_penalty = 1.1,
      max_generation_token = 2048,
      default_paras = \<lparr>paras_regulation_start = 512, paras_length_penalty = 1, paras_max_time = 60\<rparr>,
      vocab_size = 107008,
      moss_stopwords = [eom],
      history = hist\<rparr>"

text \<open>
  The collaborators are parameters: the model (\<^verbatim>\<open>infer_\<close>, on a cache of type \<open>'c\<close>),
  the random draw \<^verbatim>\<open>torch.multinomial\<close> (by step and row), the seconds elapsed since
  \<^verbatim>\<open>start_time\<close> when step \<open>i\<close> reads the clock, the contents of the tensor that
  \<^verbatim>\<open>torch.empty\<close> allocates for the stop-word window, and the tokenizer.
\<close>

record 'c host =
  infer :: "int list list \<Rightarrow> int list list \<Rightarrow> 'c option \<Rightarrow> error + (real list list list \<times> 'c)"
  multinomial :: "nat \<Rightarrow> nat \<Rightarrow> real list \<Rightarrow> error + int"
  elapsed :: "nat \<Rightarrow> real"
  uninitialised :: "nat \<Rightarrow> nat \<Rightarrow> int"
  tokenize :: "string \<Rightarrow> int list \<times> int list"
  decode :: "int list \<Rightarrow> string"

section \<open>The prompt builder (lines 93-103)\<close>

text \<open>
  The methods \<^verbatim>\<open>_get_main_instruction\<close> and \<^verbatim>\<open>_get_moss_style_inputs\<close>, named here
  without the leading underscore. The loop over the history extends \<^verbatim>\<open>context\<close> turn by
  turn.
\<close>

definition get_main_instruction :: "client \<Rightarrow> string" where
  "get_main_instruction c =
     system_prompt c @ web_search_switch c @ calculator_switch c @ equation_solver_switch c
       @ text_to_image_switch c @ image_edition_switch c @ text_to_speech_switch c"

definition get_moss_style_inputs :: "client \<Rightarrow> string" where
  "get_moss_style_inputs c =
     foldl (\<lambda>context i.
              if role i = ''user'' then context @ ''<|Human|>: '' @ content i @ ''<eoh>'' @ newline
              else context @ ''<|MOSS|>: '' @ content i @ ''<eom>'')
       (get_main_instruction c) (history c)"

section \<open>The decode loop (\<^verbatim>\<open>streaming_topk_search\<close>, lines 186-282)\<close>

record search_args =
  temperature :: real
  repetition_penalty :: real
  top_k :: int
  top_p :: real
  max_iterations :: int
  regulation_start :: int
  length_penalty :: real
  max_time :: real

text \<open>The local variables that live across iterations (\<^verbatim>\<open>generations\<close> is only written).\<close>

record 'c gen_state =
  input_ids :: "int list list"
  attention_mask :: "int list list"
  past_key_values :: "'c option"
  new_generated_id :: "int list"
  queue_for_moss_stopwords :: "int list list"
  moss_stop :: "bool list"
  all_shall_stop :: "bool list"

definition init_state :: "client \<Rightarrow> 'c host \<Rightarrow> int list list \<Rightarrow> int list list \<Rightarrow> 'c gen_state" where
  "init_state c h ids amask =
     \<lparr>input_ids = ids, attention_mask = amask, past_key_values = None, new_generated_id = [],
      queue_for_moss_stopwords =
        map (\<lambda>b. map (uninitialised h b) [0..<length (moss_stopwords c)]) [0..<length ids],
      moss_stop = replicate (length ids) False,
      all_shall_stop = replicate (length ids) False\<rparr>"

text \<open>
  Lines 235-238. On step 0 the logits are gathered at each row's last attended position,
  \<^verbatim>\<open>attention_mask.sum(1) - 1\<close>, over \<^verbatim>\<open>self.vocab_size\<close> columns; afterwards the last
  position is taken. \<^verbatim>\<open>view\<close> and \<^verbatim>\<open>gather\<close> raise on shapes or indices that do not fit.
\<close>

definition select_logits ::
  "client \<Rightarrow> nat \<Rightarrow> nat \<Rightarrow> int list \<Rightarrow> real list list list \<Rightarrow> error + real list list" where
  "select_logits c bsz i last_token_indices logits =
     (if i = 0 then
        (if length last_token_indices \<noteq> bsz \<or> length logits < bsz then Inl RuntimeError
         else mapE (\<lambda>(ix, seq).
                 if 0 \<le> ix \<and> nat ix < length seq \<and> vocab_size c \<le> length (seq ! nat ix)
                 then Inr (take (vocab_size c) (seq ! nat ix)) else Inl RuntimeError)
               (zip last_token_indices logits))
      else mapE (\<lambda>seq. if seq = [] then Inl IndexError else Inr (last seq)) logits)"

text \<open>
  Lines 256-259: past \<^verbatim>\<open>regulation_start\<close>, the probability of every stop-word id is
  multiplied by a power of the length penalty. A negative id indexes from the end.
\<close>

definition scale_column :: "real \<Rightarrow> int \<Rightarrow> real list \<Rightarrow> error + real list" where
  "scale_column f t row =
     (let n = int (length row); j = (if t < 0 then t + n else t)
      in if 0 \<le> j \<and> j < n then Inr (row[nat j := row ! nat j * f]) else Inl IndexError)"

fun foldE :: "('b \<Rightarrow> 'a \<Rightarrow> error + 'b) \<Rightarrow> 'a list \<Rightarrow> 'b \<Rightarrow> error + 'b" where
  "foldE f [] acc = Inr acc"
| "foldE f (x # xs) acc = bindE (f acc x) (foldE f xs)"

definition apply_length_penalty ::
  "client \<Rightarrow> search_args \<Rightarrow> nat \<Rightarrow> real list list \<Rightarrow> error + real list list" where
  "apply_length_penalty c a cur_len probabilities =
     (if int cur_len > regulation_start a then
        foldE (\<lambda>probs t.
                 mapE (scale_column (length_penalty a ^ nat (int cur_len - regulation_start a)) t) probs)
          (moss_stopwords c) probabilities
      else Inr probabilities)"

text \<open>
  Line 261. \<^verbatim>\<open>torch.multinomial\<close> raises on probabilities that hold NaN. They do in two
  cases: the temperature is 0 (every logit divided by it is infinite or NaN, and so is every
  softmax entry), or a filtered row has no finite entry.
\<close>

definition has_finite :: "logit list \<Rightarrow> bool" where
  "has_finite row = list_ex (\<lambda>x. x \<noteq> NegInf) row"

definition draw ::
  "'c host \<Rightarrow> search_args \<Rightarrow> nat \<Rightarrow> logit list list \<Rightarrow> real list list \<Rightarrow> error + int list" where
  "draw h a i filtered_logits probabilities =
     (if temperature a = 0 \<or> list_ex (\<lambda>row. \<not> has_finite row) filtered_logits
      then Inl RuntimeError
      else mapE (\<lambda>(b, p). multinomial h i b p) (zip [0..<length probabilities] probabilities))"

text \<open>
  Lines 271-273: the window drops its oldest id and takes the new one; a row matches when
  its window equals the stop words elementwise (over no element at all when there is none).
\<close>

definition stop_match :: "int list \<Rightarrow> int list \<Rightarrow> bool" where
  "stop_match stopwords queue = (stopwords = [] \<or> queue = stopwords)"

text \<open>
  One iteration of the loop body, lines 233-275, up to the tests that leave the loop. The
  inner loop over the stop words reuses the name \<^verbatim>\<open>i\<close>; the step index it needs is saved
  in \<^verbatim>\<open>cur_len\<close> before, and \<^verbatim>\<open>i\<close> is not read again in the iteration. The filter is
  called on the fresh tensor \<^verbatim>\<open>logits / temperature\<close>, which is not read after the call.
\<close>

definition decode_step ::
  "client \<Rightarrow> 'c host \<Rightarrow> search_args \<Rightarrow> nat \<Rightarrow> int list \<Rightarrow> nat \<Rightarrow> 'c gen_state
     \<Rightarrow> error + 'c gen_state" where
  "decode_step c h a bsz last_token_indices i st =
     bindE (infer h (if i = 0 then input_ids st else map (\<lambda>t. [t]) (new_generated_id st))
              (attention_mask st) (past_key_values st)) (\<lambda>(logits, pkv).
     bindE (select_logits c bsz i last_token_indices logits) (\<lambda>logits.
     bindE (apply_repetition_penalty (repetition_penalty a) logits (input_ids st)) (\<lambda>logits.
     bindE (top_k_top_p_filtering (map (map (\<lambda>x. Fin (x / temperature a))) logits)
              (top_k a) (top_p a)) (\<lambda>filtered_logits.
     bindE (apply_length_penalty c a i (map softmax filtered_logits)) (\<lambda>probabilities.
     bindE (draw h a i filtered_logits probabilities) (\<lambda>new.
       if length new \<noteq> length (input_ids st) then Inl RuntimeError
       else
         (let queue = map (\<lambda>(q, t). drop 1 q @ [t]) (zip (queue_for_moss_stopwords st) new);
              stop = map (\<lambda>(s, q). s \<or> stop_match (moss_stopwords c) q) (zip (moss_stop st) queue)
          in Inr \<lparr>input_ids = map (\<lambda>(r, t). r @ [t]) (zip (input_ids st) new),
                  attention_mask = map (\<lambda>m. m @ [1]) (attention_mask st),
                  past_key_values = Some pkv,
                  new_generated_id = new,
                  queue_for_moss_stopwords = queue,
                  moss_stop = stop,
                  all_shall_stop = map (\<lambda>(x, y). x \<or> y) (zip (all_shall_stop st) stop)\<rparr>)))))))"

text \<open>
  The loop runs at most \<^verbatim>\<open>int(max_iterations)\<close> times. After a step it leaves when every
  row shall stop, or when the time is up, and only otherwise yields the sequences. The result
  is the list of states at the yields and how the generator ended.
\<close>

datatype 'c ending =
  Stopped "'c gen_state" | TimedOut "'c gen_state" | Truncated "'c gen_state" | Raised error

fun decode_loop ::
  "client \<Rightarrow> 'c host \<Rightarrow> search_args \<Rightarrow> nat \<Rightarrow> int list \<Rightarrow> nat \<Rightarrow> nat \<Rightarrow> 'c gen_state
     \<Rightarrow> 'c gen_state list \<times> 'c ending" where
  "decode_loop c h a bsz lti 0 i st = ([], Truncated st)"
| "decode_loop c h a bsz lti (Suc n) i st =
     (case decode_step c h a bsz lti i st of
        Inl e \<Rightarrow> ([], Raised e)
      | Inr st' \<Rightarrow>
          if list_all (\<lambda>b. b) (all_shall_stop st') then ([], Stopped st')
          else if elapsed h i > max_time a then ([], TimedOut st')
          else (case decode_loop c h a bsz lti n (Suc i) st' of (ys, e) \<Rightarrow> (st' # ys, e)))"

definition run_search ::
  "client \<Rightarrow> 'c host \<Rightarrow> int list list \<Rightarrow> int list list \<Rightarrow> search_args
     \<Rightarrow> 'c gen_state list \<times> 'c ending" where
  "run_search c h ids amask a =
     decode_loop c h a (length ids) (map (\<lambda>m. sum_list m - 1) amask) (nat (max_iterations a)) 0
       (init_state c h ids amask)"

text \<open>What the consumer of the generator receives: \<^verbatim>\<open>input_ids\<close> at every yield.\<close>

definition streaming_topk_search ::
  "client \<Rightarrow> 'c host \<Rightarrow> int list list \<Rightarrow> int list list \<Rightarrow> search_args \<Rightarrow> int list list list" where
  "streaming_topk_search c h ids amask a = map input_ids (fst (run_search c h ids amask a))"

section \<open>The streaming wrapper (\<^verbatim>\<open>forward\<close>, lines 147-184)\<close>

text \<open>\<^verbatim>\<open>pred.lstrip(chars)\<close>: drops leading characters as long as they occur in \<open>chars\<close>.\<close>

fun lstrip :: "string \<Rightarrow> string \<Rightarrow> string" where
  "lstrip [] chars = []"
| "lstrip (x # xs) chars = (if x \<in> set chars then lstrip xs chars else x # xs)"

definition preprocess :: "'c host \<Rightarrow> string \<Rightarrow> int list list \<times> int list list" where
  "preprocess h raw_text = (case tokenize h raw_text of (ids, amask) \<Rightarrow> ([ids], [amask]))"

definition forward_args :: "client \<Rightarrow> paras option \<Rightarrow> search_args" where
  "forward_args c ps =
     (let ps = (case ps of None \<Rightarrow> default_paras c | Some p \<Rightarrow> p)
      in \<lparr>temperature = self_temperature c,
          repetition_penalty = self_repetition_penalty c,
          top_k = self_top_k c,
          top_p = self_top_p c,
          max_iterations = max_generation_token c,
          regulation_start = paras_regulation_start ps,
          length_penalty = paras_length_penalty ps,
          max_time = paras_max_time ps\<rparr>)"

definition forward :: "client \<Rightarrow> 'c host \<Rightarrow> string \<Rightarrow> paras option \<Rightarrow> (error + string) list" where
  "forward c h data ps =
     (case preprocess h data of (ids, amask) \<Rightarrow>
        map (\<lambda>outputs.
               let preds = map (decode h) outputs;
                   res = map (\<lambda>pred. lstrip pred data) preds
               in (case res of [] \<Rightarrow> Inl IndexError | r # _ \<Rightarrow> Inr r))
          (streaming_topk_search c h ids amask (forward_args c ps)))"

section \<open>Notions used in the statements\<close>

text \<open>The state a generator run ended in, when it did not end by raising.\<close>

fun ending_state :: "'c ending \<Rightarrow> 'c gen_state option" where
  "ending_state (Stopped s) = Some s"
| "ending_state (TimedOut s) = Some s"
| "ending_state (Truncated s) = Some s"
| "ending_state (Raised e) = None"

text \<open>
  \<open>grown_by ids amask k s\<close>: in state \<open>s\<close> every sequence is \<open>k\<close> tokens longer than its
  prompt in \<open>ids\<close>, and every mask row is its row of \<open>amask\<close> followed by \<open>k\<close> ones.
\<close>

definition grown_by :: "int list list \<Rightarrow> int list list \<Rightarrow> nat \<Rightarrow> 'c gen_state \<Rightarrow> bool" where
  "grown_by ids amask k s =
     (map length (input_ids s) = map (\<lambda>r. length r + k) ids \<and>
      attention_mask s = map (\<lambda>m. m @ replicate k 1) amask)"

text \<open>
  A small configuration for worked examples: a vocabulary of three tokens, of which token 2
  is the stop word; a model that gives every token the logit 0; a draw that returns
  \<open>pick i\<close> at step \<open>i\<close>; a tokenizer that encodes any text as the tokens 0 and 1 and decodes
  0, 1 and 2 as the characters a, b and an exclamation mark.
\<close>

definition demo_client :: client where
  "demo_client =
     \<lparr>system_prompt = [], web_search_switch = [], calculator_switch = [],
      equation_solver_switch = [], text_to_image_switch = [], image_edition_switch = [],
      text_to_speech_switch = [],
      self_top_p = 0.8, self_top_k = 2, self_temperature = 0.7, self_repetition_penalty = 1.1,
      max_generation_token = 3,
      default_paras = \<lparr>paras_regulation_start = 512, paras_length_penalty = 1, paras_max_time = 60\<rparr>,
      vocab_size = 3, moss_stopwords = [2], history = []\<rparr>"

definition demo_host :: "(nat \<Rightarrow> int) \<Rightarrow> unit host" where
  "demo_host pick =
     \<lparr>infer = (\<lambda>ids m pkv. Inr (map (map (\<lambda>_. [0, 0, 0])) ids, ())),
      multinomial = (\<lambda>i b p. Inr (pick i)),
      elapsed = (\<lambda>i. 0),
      uninitialised = (\<lambda>b j. 0),
      tokenize = (\<lambda>s. ([0, 1], [1, 1])),
      decode = map (\<lambda>t. if t = 0 then CHR ''a'' else if t = 1 then CHR ''b'' else CHR ''!'')\<rparr>"

text \<open>A draw that generates the tokens 1, 0 and then the stop word: the text \<open>ba\<close>.\<close>

definition demo_pick :: "nat \<Rightarrow> int" where
  "demo_pick i = (if i = 0 then 1 else if i = 1 then 0 else 2)"

definition demo_args :: search_args where
  "demo_args =
     \<lparr>temperature = 0.7, repetition_penalty = 1.1, top_k = 2, top_p = 0.8, max_iterations = 3,
      regulation_start = 512, length_penalty = 1, max_time = 60\<rparr>"

text \<open>Sampling parameters outside their documented ranges.\<close>

definition bad_args :: search_args where
  "bad_args =
     \<lparr>temperature = - 1, repetition_penalty = 1.1, top_k = - 1, top_p = 2, max_iterations = 1,
      regulation_start = 512, length_penalty = 1, max_time = 60\<rparr>"

text \<open>
  A configuration in which the draw depends on the probabilities: the model gives the three
  tokens the logits 2, 1 and 0, and the draw returns token 0 when tokens 0 and 1 are equally
  probable and token 1 otherwise. The sampling parameters leave the filter disabled and divide
  a seen non-negative logit by 2.
\<close>

definition peaked_host :: "unit host" where
  "peaked_host =
     \<lparr>infer = (\<lambda>ids m pkv. Inr (map (map (\<lambda>_. [2, 1, 0])) ids, ())),
      multinomial = (\<lambda>i b p. Inr (if p ! 0 = p ! 1 then 0 else 1)),
      elapsed = (\<lambda>i. 0),
      uninitialised = (\<lambda>b j. 0),
      tokenize = (\<lambda>s. ([0], [1])),
      decode = (\<lambda>ids. [])\<rparr>"

definition penalty_args :: search_args where
  "penalty_args =
     \<lparr>temperature = 1, repetition_penalty = 2, top_k = 0, top_p = 1, max_iterations = 1,
      regulation_start = 512, length_penalty = 1, max_time = 60\<rparr>"

section \<open>Basic facts\<close>

lemma Fin_less [simp]: "(Fin x < Fin y) = (x < y)" "(NegInf < Fin y)" "\<not> (a < NegInf)"
  by (auto simp: less_logit_def split: logit.splits)

lemma Fin_le [simp]: "(Fin x \<le> Fin y) = (x \<le> y)" "(NegInf \<le> a)" "\<not> (Fin x \<le> NegInf)"
  by (auto simp: less_eq_logit_def split: logit.splits)

lemma bindE_Inr [simp]: "bindE (Inr x) f = f x"
  by (simp add: bindE_def)

lemma bindE_Inl [simp]: "bindE (Inl e) f = Inl e"
  by (simp add: bindE_def)

lemma mapE_Inr: "mapE (\<lambda>x. Inr (g x)) xs = Inr (map g xs)"
  by (induction xs) auto

lemma mapE_Inr_id: "(\<And>x. x \<in> set xs \<Longrightarrow> f x = Inr x) \<Longrightarrow> mapE f xs = Inr xs"
  by (induction xs) auto

subsection \<open>The descending sort is a permutation of the positions, largest logit first\<close>

lemma mset_insort_desc: "mset (insort_desc row i js) = add_mset i (mset js)"
  by (induction js) auto

lemma set_insort_desc: "set (insort_desc row i js) = insert i (set js)"
  by (induction js) auto

lemma mset_foldr_insort: "mset (foldr (insort_desc row) xs []) = mset xs"
  by (induction xs) (auto simp: mset_insort_desc)

lemma mset_sorted_indices: "mset (sorted_indices row) = mset [0..<length row]"
  by (simp add: sorted_indices_def mset_foldr_insort)

lemma length_sorted_indices: "length (sorted_indices row) = length row"
  using mset_sorted_indices [of row] by (metis length_upt minus_nat.diff_0 size_mset)

lemma set_sorted_indices: "set (sorted_indices row) = {0..<length row}"
  using mset_sorted_indices [of row] by (metis set_mset_mset set_upt)

lemma distinct_sorted_indices: "distinct (sorted_indices row)"
  using mset_sorted_indices [of row] by (metis distinct_upt mset_eq_imp_distinct_iff)

lemma desc_insort_desc:
  "sorted_wrt (\<lambda>a b. row ! b \<le> row ! a) js \<Longrightarrow>
   sorted_wrt (\<lambda>a b. row ! b \<le> row ! a) (insort_desc row i js)"
  by (induction js) (auto simp: set_insort_desc)

lemma desc_foldr_insort: "sorted_wrt (\<lambda>a b. row ! b \<le> row ! a) (foldr (insort_desc row) xs [])"
  by (induction xs) (auto simp: desc_insort_desc)

lemma desc_sorted_indices: "sorted_wrt (\<lambda>a b. row ! b \<le> row ! a) (sorted_indices row)"
  by (simp add: sorted_indices_def desc_foldr_insort)

lemma mset_sorted_logits: "mset (sorted_logits row) = mset row"
proof -
  have "mset (sorted_logits row) = image_mset (\<lambda>i. row ! i) (mset (sorted_indices row))"
    by (simp add: sorted_logits_def)
  also have "\<dots> = mset (map (\<lambda>i. row ! i) [0..<length row])"
    by (simp add: mset_sorted_indices)
  also have "\<dots> = mset row"
    by (simp add: map_nth)
  finally show ?thesis .
qed

lemma length_sorted_logits: "length (sorted_logits row) = length row"
  by (simp add: sorted_logits_def length_sorted_indices)

lemma desc_sorted_logits: "sorted_wrt (\<lambda>a b. b \<le> a) (sorted_logits row)"
  using desc_sorted_indices [of row] by (simp add: sorted_logits_def sorted_wrt_map)

lemma sorted_logits_nth_mono:
  "i \<le> j \<Longrightarrow> j < length row \<Longrightarrow> sorted_logits row ! j \<le> sorted_logits row ! i"
  using desc_sorted_logits [of row]
  by (cases "i = j") (auto simp: sorted_wrt_iff_nth_less length_sorted_logits)

subsection \<open>The top-k stage\<close>

lemma length_filter_mset_eq:
  "mset xs = mset ys \<Longrightarrow> length (filter P xs) = length (filter P ys)"
  by (metis mset_filter size_mset)

lemma count_above_kth:
  assumes "0 < k" "k \<le> length row"
  shows "length (filter (\<lambda>x. kth_largest row k < x) row) < k"
proof -
  let ?s = "sorted_logits row" and ?v = "kth_largest row k"
  have "filter (\<lambda>x. ?v < x) (drop (k - 1) ?s) = []"
  proof -
    have "\<forall>x \<in> set (drop (k - 1) ?s). \<not> ?v < x"
    proof
      fix x assume "x \<in> set (drop (k - 1) ?s)"
      then obtain j where j: "j < length (drop (k - 1) ?s)" "x = drop (k - 1) ?s ! j"
        by (auto simp: in_set_conv_nth)
      then have "x = ?s ! (k - 1 + j)" "k - 1 + j < length row"
        by (auto simp: length_sorted_logits)
      then have "x \<le> ?s ! (k - 1)"
        using sorted_logits_nth_mono [of "k - 1" "k - 1 + j" row] by simp
      then show "\<not> ?v < x" by (simp add: kth_largest_def)
    qed
    then show ?thesis by (simp add: filter_empty_conv)
  qed
  then have "length (filter (\<lambda>x. ?v < x) ?s) = length (filter (\<lambda>x. ?v < x) (take (k - 1) ?s))"
    by (metis append_Nil2 append_take_drop_id filter_append)
  also have "\<dots> \<le> length (take (k - 1) ?s)" by (rule length_filter_le)
  also have "\<dots> \<le> k - 1" by simp
  finally have "length (filter (\<lambda>x. ?v < x) ?s) < k" using assms by simp
  then show ?thesis
    using length_filter_mset_eq [OF mset_sorted_logits, of "\<lambda>x. ?v < x" row] by simp
qed

lemma count_at_least_kth:
  assumes "0 < k" "k \<le> length row"
  shows "k \<le> length (filter (\<lambda>x. kth_largest row k \<le> x) row)"
proof -
  let ?s = "sorted_logits row" and ?v = "kth_largest row k"
  have "\<forall>x \<in> set (take k ?s). ?v \<le> x"
  proof
    fix x assume "x \<in> set (take k ?s)"
    then obtain j where j: "j < length (take k ?s)" "x = take k ?s ! j"
      by (auto simp: in_set_conv_nth)
    then have "x = ?s ! j" "j \<le> k - 1" "k - 1 < length row"
      using assms by (auto simp: length_sorted_logits)
    then show "?v \<le> x"
      using sorted_logits_nth_mono [of j "k - 1" row] by (simp add: kth_largest_def)
  qed
  then have "filter (\<lambda>x. ?v \<le> x) (take k ?s) = take k ?s"
    by (simp add: filter_id_conv)
  then have "length (filter (\<lambda>x. ?v \<le> x) ?s) =
      length (take k ?s) + length (filter (\<lambda>x. ?v \<le> x) (drop k ?s))"
    by (metis append_take_drop_id filter_append length_append)
  then have "k \<le> length (filter (\<lambda>x. ?v \<le> x) ?s)"
    using assms by (simp add: length_sorted_logits)
  then show ?thesis
    using length_filter_mset_eq [OF mset_sorted_logits, of "\<lambda>x. ?v \<le> x" row] by simp
qed

lemma kth_largest_in_row:
  assumes "0 < k" "k \<le> length row"
  shows "kth_largest row k \<in> set row"
proof -
  have "kth_largest row k \<in> set (sorted_logits row)"
    using assms by (simp add: kth_largest_def length_sorted_logits)
  then show ?thesis by (metis mset_sorted_logits set_mset_mset)
qed

lemma top_p_stage_disabled: "1 \<le> p \<Longrightarrow> top_p_stage p row = Inr row"
  by (simp add: top_p_stage_def)

lemma top_k_stage_disabled: "k \<le> 0 \<Longrightarrow> top_k_stage k row = Inr row"
  by (simp add: top_k_stage_def)

lemma filtering_top_p_disabled:
  "1 \<le> p \<Longrightarrow> top_k_top_p_filtering logits k p = mapE (top_k_stage k) logits"
  by (cases "mapE (top_k_stage k) logits")
     (simp_all add: top_k_top_p_filtering_def mapE_Inr_id top_p_stage_disabled)

text \<open>
  C5. With \<open>k > 0\<close> (and a row of at least \<open>k\<close> entries, so that the row has a \<open>k\<close>-th largest
  value) the top-k stage sets to \<open>-inf\<close> exactly the entries strictly below the \<open>k\<close>-th
  largest value \<open>v\<close> of the row and keeps every other entry, ties with \<open>v\<close> included:
  \<open>v\<close> is an entry of the row, fewer than \<open>k\<close> entries are above it and at least \<open>k\<close>
  entries (the kept ones) are not below it. With \<open>k = 0\<close> the stage returns the row as it
  is. With the top-p stage disabled, the filter is the top-k stage on every row.
\<close>

theorem top_k_masks_strictly_below_kth_largest:
  "top_k_stage 0 row = Inr row \<and>
   (1 \<le> p \<longrightarrow> top_k_top_p_filtering logits k p = mapE (top_k_stage k) logits) \<and>
   (0 < k \<longrightarrow> nat k \<le> length row \<longrightarrow>
      kth_largest row (nat k) \<in> set row \<and>
      length (filter (\<lambda>x. kth_largest row (nat k) < x) row) < nat k \<and>
      nat k \<le> length (filter (\<lambda>x. kth_largest row (nat k) \<le> x) row) \<and>
      top_k_stage k row =
        Inr (map (\<lambda>x. if x < kth_largest row (nat k) then NegInf else x) row))"
proof (intro conjI impI)
  show "top_k_stage 0 row = Inr row"
    by (simp add: top_k_stage_def)
next
  assume "1 \<le> p"
  then show "top_k_top_p_filtering logits k p = mapE (top_k_stage k) logits"
    by (rule filtering_top_p_disabled)
next
  assume k: "0 < k" "nat k \<le> length row"
  then have k': "0 < nat k" by simp
  show "kth_largest row (nat k) \<in> set row"
    using k' k(2) by (rule kth_largest_in_row)
  show "length (filter (\<lambda>x. kth_largest row (nat k) < x) row) < nat k"
    using k' k(2) by (rule count_above_kth)
  show "nat k \<le> length (filter (\<lambda>x. kth_largest row (nat k) \<le> x) row)"
    using k' k(2) by (rule count_at_least_kth)
  show "top_k_stage k row =
      Inr (map (\<lambda>x. if x < kth_largest row (nat k) then NegInf else x) row)"
    using k by (simp add: top_k_stage_def)
qed

theorem top_k_masks_strictly_below_kth_largest_witness:
  "(1::real) \<le> 1 \<and> (0::int) < 1 \<and> nat 1 \<le> length [Fin 1, Fin 3, NegInf, Fin 3, Fin 2] \<and>
   top_k_top_p_filtering [[Fin 1, Fin 3, NegInf, Fin 3, Fin 2]] 1 1 =
     Inr [[NegInf, Fin 3, NegInf, Fin 3, NegInf]]"
  using top_k_masks_strictly_below_kth_largest
    [of "[Fin 1, Fin 3, NegInf, Fin 3, Fin 2]" 1 "[[Fin 1, Fin 3, NegInf, Fin 3, Fin 2]]" 1]
  by (simp add: kth_largest_def sorted_logits_def sorted_indices_def upt_conv_Cons)

subsection \<open>The repetition penalty\<close>

lemma mapE_cond:
  "mapE (\<lambda>x. if P x then Inr (g x) else Inl e) xs =
     (if \<forall>x \<in> set xs. P x then Inr (map g xs) else Inl e)"
  by (induction xs) auto

lemma bindE_return: "bindE m Inr = m"
  by (cases m) simp_all

lemma length_fold_update:
  "length (fold (\<lambda>(i, v) acc. acc[i := v]) ps t) = length t"
  by (induction ps arbitrary: t) auto

lemma fold_update_nth:
  assumes "\<forall>(i, x) \<in> set ps. x = g i" "v < length t"
  shows "fold (\<lambda>(i, x) acc. acc[i := x]) ps t ! v = (if v \<in> fst ` set ps then g v else t ! v)"
  using assms
proof (induction ps arbitrary: t)
  case Nil
  then show ?case by simp
next
  case (Cons q ps)
  obtain i x where q: "q = (i, x)" by (cases q)
  with Cons.prems have x: "x = g i" and rest: "\<forall>(i, x) \<in> set ps. x = g i" by auto
  have "fold (\<lambda>(i, x) acc. acc[i := x]) (q # ps) t ! v =
        fold (\<lambda>(i, x) acc. acc[i := x]) ps (t[i := x]) ! v"
    by (simp add: q)
  also have "\<dots> = (if v \<in> fst ` set ps then g v else t[i := x] ! v)"
    using Cons.IH [OF rest, of "t[i := x]"] Cons.prems(2) by simp
  also have "\<dots> = (if v \<in> fst ` set (q # ps) then g v else t ! v)"
    using Cons.prems(2) by (auto simp: q x nth_list_update)
  finally show ?case .
qed

lemma length_scatter: "length (scatter t index src) = length t"
  by (simp add: scatter_def length_fold_update)

lemma gather_row_eq:
  "gather_row row ids =
     (if \<forall>t \<in> set ids. 0 \<le> t \<and> nat t < length row then Inr (map (\<lambda>t. row ! nat t) ids)
      else Inl RuntimeError)"
  by (simp add: gather_row_def mapE_cond)

lemma scatter_penalized_nth:
  assumes "\<forall>t \<in> set ids. 0 \<le> t" "v < length row"
  shows "scatter row (map nat ids) (map (\<lambda>t. penalize rp (row ! nat t)) ids) ! v =
           (if int v \<in> set ids then penalize rp (row ! v) else row ! v)"
proof -
  let ?ps = "zip (map nat ids) (map (\<lambda>t. penalize rp (row ! nat t)) ids)"
  have ps: "?ps = map (\<lambda>t. (nat t, penalize rp (row ! nat t))) ids"
    by (induction ids) auto
  have "\<forall>(i, x) \<in> set ?ps. x = penalize rp (row ! i)"
    unfolding ps by auto
  then have "fold (\<lambda>(i, x) acc. acc[i := x]) ?ps row ! v =
      (if v \<in> fst ` set ?ps then penalize rp (row ! v) else row ! v)"
    using assms(2) by (rule fold_update_nth)
  moreover have "v \<in> fst ` set ?ps \<longleftrightarrow> int v \<in> set ids"
  proof
    assume "v \<in> fst ` set ?ps"
    then obtain t where "t \<in> set ids" "v = nat t" unfolding ps by auto
    with assms(1) show "int v \<in> set ids" by auto
  next
    assume "int v \<in> set ids"
    then have "(nat (int v), penalize rp (row ! nat (int v))) \<in> set ?ps"
      unfolding ps by force
    then show "v \<in> fst ` set ?ps" by force
  qed
  ultimately show ?thesis by (simp add: scatter_def)
qed

lemma penalize_row_eq:
  "penalize_row rp row ids =
     (if \<forall>t \<in> set ids. 0 \<le> t \<and> nat t < length row
      then Inr (map (\<lambda>v. if int v \<in> set ids then penalize rp (row ! v) else row ! v)
                  [0..<length row])
      else Inl RuntimeError)"
proof (cases "\<forall>t \<in> set ids. 0 \<le> t \<and> nat t < length row")
  case True
  then have nonneg: "\<forall>t \<in> set ids. 0 \<le> t" by simp
  let ?out = "scatter row (map nat ids) (map (\<lambda>t. penalize rp (row ! nat t)) ids)"
  have "?out = map (\<lambda>v. if int v \<in> set ids then penalize rp (row ! v) else row ! v)
                  [0..<length row]"
    by (rule nth_equalityI) (simp_all add: length_scatter scatter_penalized_nth [OF nonneg])
  with True show ?thesis
    by (simp add: penalize_row_def gather_row_eq o_def)
next
  case False
  then show ?thesis
    by (auto simp add: penalize_row_def gather_row_eq)
qed

text \<open>
  C7. The penalised row depends only on the set of ids in the sequence: two sequences with
  the same ids give the same row (or both raise), so removing the duplicates of a sequence,
  or appending any number of further occurrences of an id it already has, changes nothing.
\<close>

theorem repetition_penalty_ignores_duplicates:
  "(set ids = set ids' \<longrightarrow> penalize_row rp row ids = penalize_row rp row ids') \<and>
   penalize_row rp row (remdups ids) = penalize_row rp row ids \<and>
   (t \<in> set ids \<longrightarrow> penalize_row rp row (ids @ replicate n t) = penalize_row rp row ids)"
proof (intro conjI impI)
  assume "set ids = set ids'"
  then show "penalize_row rp row ids = penalize_row rp row ids'"
    by (simp add: penalize_row_eq)
next
  show "penalize_row rp row (remdups ids) = penalize_row rp row ids"
    by (simp add: penalize_row_eq)
next
  assume "t \<in> set ids"
  then have "set (ids @ replicate n t) = set ids"
    by (cases n) auto
  then show "penalize_row rp row (ids @ replicate n t) = penalize_row rp row ids"
    by (simp only: penalize_row_eq)
qed

theorem repetition_penalty_ignores_duplicates_witness:
  "set [1, 0::int] = set [0, 1, 0, 0] \<and> (0::int) \<in> set [1, 0] \<and>
   penalize_row 2 [-1, 4, 3] [1, 0] = penalize_row 2 [-1, 4, 3] [0, 1, 0, 0] \<and>
   penalize_row 2 [-1, 4, 3] ([1, 0] @ replicate 2 0) = penalize_row 2 [-1, 4, 3] [1, 0] \<and>
   penalize_row 2 [-1, 4, 3] [1, 0] = Inr [-2, 2, 3]"
  using repetition_penalty_ignores_duplicates [of "[1, 0]" "[0, 1, 0, 0]" 2 "[-1, 4, 3]" 0 2]
  by (auto simp: penalize_row_def gather_row_def scatter_def penalize_def)

subsection \<open>The prompt builder\<close>

lemma foldl_turns:
  "foldl (\<lambda>context i. if P i then context @ f i else context @ g i) start xs =
     start @ concat (map (\<lambda>i. if P i then f i else g i) xs)"
  by (induction xs arbitrary: start) auto

lemma prompt_unfolded:
  "get_moss_style_inputs c =
     system_prompt c
     @ (web_search_switch c @ calculator_switch c @ equation_solver_switch c
        @ text_to_image_switch c @ image_edition_switch c @ text_to_speech_switch c)
     @ concat (map (\<lambda>i. if role i = ''user''
                          then ''<|Human|>: '' @ content i @ ''<eoh>'' @ newline
                          else ''<|MOSS|>: '' @ content i @ ''<eom>'') (history c))"
  unfolding get_moss_style_inputs_def get_main_instruction_def foldl_turns
  by (simp only: append_assoc)

lemma switch_lines:
  "concat (map (\<lambda>capability. ''- '' @ capability @ '': disabled.'' @ newline)
         [''Web search'', ''Calculator'', ''Equation solver'', ''Text-to-image'',
          ''Image edition'', ''Text-to-speech'']) =
    (''- Web search: disabled.'' @ newline) @ (''- Calculator: disabled.'' @ newline) @
    (''- Equation solver: disabled.'' @ newline) @ (''- Text-to-image: disabled.'' @ newline) @
    (''- Image edition: disabled.'' @ newline) @ (''- Text-to-speech: disabled.'' @ newline)"
  by (simp only: list.map concat.simps append_Cons append_Nil append_assoc append_Nil2)

text \<open>
  C9 (as the code has it). The prompt is the system prompt, then the six switch lines, then
  one piece per turn of the history in order: the marker \<open><|Human|>: \<close>, the content and
  \<open><eoh>\<close> with a line break for a turn whose role is \<open>user\<close>; the marker
  \<open><|MOSS|>: \<close>, the content and \<open><eom>\<close> for a turn of any other role. For a freshly
  constructed client every switch line is \<open>- Capability: disabled.\<close> followed by a line
  break.
\<close>

theorem prompt_is_preamble_switches_turns:
  "get_moss_style_inputs c =
     system_prompt c
     @ (web_search_switch c @ calculator_switch c @ equation_solver_switch c
        @ text_to_image_switch c @ image_edition_switch c @ text_to_speech_switch c)
     @ concat (map (\<lambda>i. if role i = ''user''
                          then ''<|Human|>: '' @ content i @ ''<eoh>'' @ newline
                          else ''<|MOSS|>: '' @ content i @ ''<eom>'') (history c)) \<and>
   get_moss_style_inputs (MOSS_Client preamble eom hist) =
     preamble
     @ concat (map (\<lambda>capability. ''- '' @ capability @ '': disabled.'' @ newline)
         [''Web search'', ''Calculator'', ''Equation solver'', ''Text-to-image'',
          ''Image edition'', ''Text-to-speech''])
     @ concat (map (\<lambda>i. if role i = ''user''
                          then ''<|Human|>: '' @ content i @ ''<eoh>'' @ newline
                          else ''<|MOSS|>: '' @ content i @ ''<eom>'') hist)"
proof
  show "get_moss_style_inputs c =
     system_prompt c
     @ (web_search_switch c @ calculator_switch c @ equation_solver_switch c
        @ text_to_image_switch c @ image_edition_switch c @ text_to_speech_switch c)
     @ concat (map (\<lambda>i. if role i = ''user''
                          then ''<|Human|>: '' @ content i @ ''<eoh>'' @ newline
                          else ''<|MOSS|>: '' @ content i @ ''<eom>'') (history c))"
    by (rule prompt_unfolded)
  show "get_moss_style_inputs (MOSS_Client preamble eom hist) =
     preamble
     @ concat (map (\<lambda>capability. ''- '' @ capability @ '': disabled.'' @ newline)
         [''Web search'', ''Calculator'', ''Equation solver'', ''Text-to-image'',
          ''Image edition'', ''Text-to-speech''])
     @ concat (map (\<lambda>i. if role i = ''user''
                          then ''<|Human|>: '' @ content i @ ''<eoh>'' @ newline
                          else ''<|MOSS|>: '' @ content i @ ''<eom>'') hist)"
    unfolding prompt_unfolded switch_lines
    by (simp only: MOSS_Client_def client.simps append_assoc)
qed

theorem prompt_is_preamble_switches_turns_witness:
  "get_moss_style_inputs
     (MOSS_Client ''Hi. '' 7 [\<lparr>role = ''user'', content = ''a''\<rparr>, \<lparr>role = ''system'', content = ''b''\<rparr>]) =
   ''Hi. '' @ ''- Web search: disabled.'' @ newline @ ''- Calculator: disabled.'' @ newline
     @ ''- Equation solver: disabled.'' @ newline @ ''- Text-to-image: disabled.'' @ newline
     @ ''- Image edition: disabled.'' @ newline @ ''- Text-to-speech: disabled.'' @ newline
     @ ''<|Human|>: '' @ ''a'' @ ''<eoh>'' @ newline @ ''<|MOSS|>: '' @ ''b'' @ ''<eom>''"
proof -
  have r: "(''system'' = ''user'') = False" by simp
  show ?thesis
    using conjunct2 [OF prompt_is_preamble_switches_turns [of "MOSS_Client ''Hi. '' 7 []" "''Hi. ''" 7
     "[\<lparr>role = ''user'', content = ''a''\<rparr>, \<lparr>role = ''system'', content = ''b''\<rparr>]"]]
    unfolding switch_lines
    by (simp only: list.map concat.simps turn.simps r refl if_True if_False append_assoc append_Nil2)
qed

subsection \<open>Stripping the prompt characters\<close>

lemma lstrip_dropWhile: "lstrip pred chars = dropWhile (\<lambda>x. x \<in> set chars) pred"
  by (induction pred) simp_all

lemma lstrip_split:
  "\<exists>pre. pred = pre @ lstrip pred chars \<and> set pre \<subseteq> set chars \<and>
     (lstrip pred chars = [] \<or> hd (lstrip pred chars) \<notin> set chars)"
proof -
  let ?P = "\<lambda>x. x \<in> set chars"
  have 1: "pred = takeWhile ?P pred @ lstrip pred chars"
    by (simp add: lstrip_dropWhile)
  have 2: "set (takeWhile ?P pred) \<subseteq> set chars"
    using set_takeWhileD [of _ ?P pred] by blast
  have 3: "lstrip pred chars = [] \<or> hd (lstrip pred chars) \<notin> set chars"
    using hd_dropWhile [of ?P pred] unfolding lstrip_dropWhile by blast
  from 1 2 3 show ?thesis by blast
qed

lemma lstrip_prompt_prefix: "lstrip (chars @ rest) chars = lstrip rest chars"
  by (induction chars) (simp_all add: lstrip_dropWhile dropWhile_append)

lemma length_lstrip: "length (lstrip pred chars) \<le> length pred"
  unfolding lstrip_dropWhile by (rule length_dropWhile_le)

lemma lstrip_loses_generated:
  assumes "gen \<noteq> []" "hd gen \<in> set data"
  shows "length (lstrip (data @ gen) data) < length gen"
proof -
  obtain x xs where gen: "gen = x # xs" using assms(1) by (cases gen) auto
  with assms(2) have "lstrip gen data = lstrip xs data" by simp
  then have "length (lstrip gen data) \<le> length xs" by (simp add: length_lstrip)
  then show ?thesis by (simp add: lstrip_prompt_prefix gen)
qed

subsection \<open>The top-p stage\<close>

lemma fold_update_other:
  "i \<notin> fst ` set ps \<Longrightarrow> fold (\<lambda>(i, x) acc. acc[i := x]) ps t ! i = t ! i"
  by (induction ps arbitrary: t) auto

lemma fold_update_distinct:
  "distinct (map fst ps) \<Longrightarrow> (i, x) \<in> set ps \<Longrightarrow> i < length t \<Longrightarrow>
   fold (\<lambda>(i, x) acc. acc[i := x]) ps t ! i = x"
proof (induction ps arbitrary: t)
  case Nil
  then show ?case by simp
next
  case (Cons q ps)
  obtain i' x' where q: "q = (i', x')" by (cases q)
  show ?case
  proof (cases "(i, x) \<in> set ps")
    case True
    with Cons.prems Cons.IH [of "t[i' := x']"] show ?thesis
      by (simp add: q)
  next
    case False
    with Cons.prems have eq: "i' = i" "x' = x" and notin: "i \<notin> fst ` set ps"
      by (auto simp: q)
    show ?thesis
      using Cons.prems(3) by (simp add: q eq fold_update_other [OF notin])
  qed
qed

lemma scatter_distinct_nth:
  assumes "distinct index" "length index = length src" "j < length index" "index ! j < length t"
  shows "scatter t index src ! (index ! j) = src ! j"
proof -
  have "distinct (map fst (zip index src))"
    using assms(1,2) by simp
  moreover have "(index ! j, src ! j) \<in> set (zip index src)"
    using assms(2,3) by (metis in_set_zip fst_conv snd_conv)
  ultimately show ?thesis
    using assms(4) unfolding scatter_def by (rule fold_update_distinct)
qed

lemma length_cumsum_from: "length (cumsum_from a xs) = length xs"
  by (induction xs arbitrary: a) auto

lemma cumsum_from_nth:
  "j < length xs \<Longrightarrow> cumsum_from a xs ! j = a + sum_list (take (Suc j) xs)"
proof (induction xs arbitrary: a j)
  case Nil
  then show ?case by simp
next
  case (Cons x xs)
  then show ?case by (cases j) (auto simp: add.assoc)
qed

lemma length_cumulative_probs: "length (cumulative_probs row) = length row"
  by (simp add: cumulative_probs_def cumsum_def length_cumsum_from softmax_def
      length_sorted_logits)

lemma cumulative_probs_nth:
  "j < length row \<Longrightarrow>
   cumulative_probs row ! j = sum_list (take (Suc j) (softmax (sorted_logits row)))"
  by (simp add: cumulative_probs_def cumsum_def cumsum_from_nth softmax_def length_sorted_logits)

lemma all_neg_inf_nth: "all_neg_inf row \<Longrightarrow> i < length row \<Longrightarrow> row ! i = NegInf"
  by (simp add: all_neg_inf_def list_all_length)

lemma sorted_indices_nth_less: "j < length row \<Longrightarrow> sorted_indices row ! j < length row"
  using set_sorted_indices [of row] length_sorted_indices [of row]
  by (metis atLeastLessThan_iff nth_mem)

lemma top_p_stage_nth:
  assumes p: "p < 1" and ne: "row \<noteq> []" and j: "j < length row"
  shows "\<exists>out. top_p_stage p row = Inr out \<and> length out = length row \<and>
           out ! (sorted_indices row ! j) =
             (if 0 < j \<and> p < sum_list (take j (softmax (sorted_logits row)))
              then NegInf else row ! (sorted_indices row ! j))"
proof -
  let ?si = "sorted_indices row"
  define rem where "rem = (if all_neg_inf row then replicate (length row) False
                else map (\<lambda>c. c > p) (cumulative_probs row))"
  define shifted where "shifted = False # butlast rem"
  define itr where "itr = scatter shifted ?si shifted"
  define out where "out = map (\<lambda>(x, r). if r then NegInf else x) (zip row itr)"
  have len_rem: "length rem = length row"
    by (simp add: rem_def length_cumulative_probs)
  have len_shifted: "length shifted = length row"
    using ne by (simp add: shifted_def len_rem)
  have len_itr: "length itr = length row"
    by (simp add: itr_def length_scatter len_shifted)
  have res: "top_p_stage p row = Inr out"
    using p ne by (simp add: top_p_stage_def Let_def out_def itr_def shifted_def rem_def)
  have tj: "?si ! j < length row"
    using j by (rule sorted_indices_nth_less)
  have "itr ! (?si ! j) = shifted ! j"
    unfolding itr_def
    by (rule scatter_distinct_nth)
       (simp_all add: distinct_sorted_indices length_sorted_indices len_shifted j tj)
  moreover have "shifted ! j = (0 < j \<and> \<not> all_neg_inf row \<and>
      p < sum_list (take j (softmax (sorted_logits row))))"
  proof (cases j)
    case 0
    then show ?thesis by (simp add: shifted_def)
  next
    case (Suc i)
    with j have i: "i < length row - 1" "i < length row" by simp_all
    have "shifted ! j = rem ! i"
      using i by (simp add: shifted_def Suc nth_butlast len_rem)
    also have "\<dots> = (\<not> all_neg_inf row \<and> p < cumulative_probs row ! i)"
      using i by (simp add: rem_def length_cumulative_probs)
    finally show ?thesis
      using i by (simp add: Suc cumulative_probs_nth)
  qed
  moreover have "out ! (?si ! j) = (if itr ! (?si ! j) then NegInf else row ! (?si ! j))"
    using tj by (simp add: out_def len_itr)
  moreover have "all_neg_inf row \<Longrightarrow> row ! (?si ! j) = NegInf"
    using tj by (simp add: all_neg_inf_nth)
  ultimately have "out ! (?si ! j) =
      (if 0 < j \<and> p < sum_list (take j (softmax (sorted_logits row)))
       then NegInf else row ! (?si ! j))"
    by auto
  moreover have "length out = length row"
    by (simp add: out_def len_itr)
  ultimately show ?thesis using res by blast
qed

lemma sorted_indices_head_max:
  assumes "x \<in> set row"
  shows "x \<le> row ! (sorted_indices row ! 0)"
proof -
  from assms obtain i where i: "i < length row" "x = row ! i"
    by (auto simp: in_set_conv_nth)
  then have "i \<in> set (sorted_indices row)"
    by (simp add: set_sorted_indices)
  then obtain j where j: "j < length row" "sorted_indices row ! j = i"
    by (auto simp: in_set_conv_nth length_sorted_indices)
  show ?thesis
  proof (cases j)
    case 0
    with j i show ?thesis by simp
  next
    case (Suc m)
    then have "row ! (sorted_indices row ! j) \<le> row ! (sorted_indices row ! 0)"
      using desc_sorted_indices [of row] j(1)
      by (simp add: sorted_wrt_iff_nth_less length_sorted_indices)
    with j i show ?thesis by simp
  qed
qed

subsection \<open>The filter and its argument\<close>

lemma store_result:
  "top_k_top_p_filtering_store s r k p =
     (case top_k_top_p_filtering (s r) k p of Inl e \<Rightarrow> Inl e | Inr t \<Rightarrow> Inr (s(r := t), r))"
proof (cases "mapE (top_k_stage k) (s r)")
  case (Inl e)
  then show ?thesis
    by (simp add: top_k_top_p_filtering_store_def top_k_top_p_filtering_def)
next
  case (Inr t1)
  show ?thesis
  proof (cases "mapE (top_p_stage p) t1")
    case (Inl e)
    with Inr show ?thesis
      by (simp add: top_k_top_p_filtering_store_def top_k_top_p_filtering_def Let_def)
  next
    case t2: (Inr t2)
    with Inr show ?thesis
      by (simp add: top_k_top_p_filtering_store_def top_k_top_p_filtering_def Let_def)
  qed
qed

lemma store_call_inverts: assumes a: "top_k_top_p_filtering_store s r k p = Inr (s', r')"
  shows "r' = r \<and> top_k_top_p_filtering (s r) k p = Inr (s' r) \<and> s' = s(r := s' r)"
proof (cases "top_k_top_p_filtering (s r) k p")
  case (Inl e)
  with a show ?thesis by (simp add: store_result)
next
  case (Inr t)
  with a have s': "s' = s(r := t)" and r': "r' = r" by (auto simp: store_result)
  have "s' r = t" unfolding s' by simp
  then show ?thesis using Inr s' r' by simp
qed

lemma store_call_disabled: assumes "k \<le> 0" "1 \<le> p" shows "top_k_top_p_filtering_store s r k p = Inr (s, r)"
proof -
  have "mapE (top_k_stage k) (s r) = Inr (s r)"
    by (rule mapE_Inr_id) (simp add: top_k_stage_disabled assms)
  then have "top_k_top_p_filtering (s r) k p = Inr (s r)"
    using assms by (simp only: filtering_top_p_disabled)
  then show ?thesis
    by (simp add: store_result)
qed

text \<open>
  C3 (as the code has it). The call writes through the reference it is given and returns that
  reference: when it returns, the caller's tensor holds the filtered values, which are the
  values returned, and no other tensor of the store has changed; when the filter raises, so
  does the call. The caller's tensor is left as it was when both stages are disabled
  (\<open>k \<le> 0\<close> and \<open>p \<ge> 1\<close>).
\<close>

theorem filter_writes_through_its_argument:
  "(top_k_top_p_filtering_store s r k p = Inr (s', r') \<longrightarrow>
      r' = r \<and> top_k_top_p_filtering (s r) k p = Inr (s' r) \<and> s' = s(r := s' r)) \<and>
   (top_k_top_p_filtering (s r) k p = Inr t \<longrightarrow>
      top_k_top_p_filtering_store s r k p = Inr (s(r := t), r)) \<and>
   (top_k_top_p_filtering (s r) k p = Inl e \<longrightarrow>
      top_k_top_p_filtering_store s r k p = Inl e) \<and>
   (k \<le> 0 \<longrightarrow> 1 \<le> p \<longrightarrow> top_k_top_p_filtering_store s r k p = Inr (s, r))"
proof (intro conjI impI)
  assume a: "top_k_top_p_filtering_store s r k p = Inr (s', r')"
  from store_call_inverts [OF a] show "r' = r"
    and "top_k_top_p_filtering (s r) k p = Inr (s' r)" and "s' = s(r := s' r)"
    by blast+
next
  assume "top_k_top_p_filtering (s r) k p = Inr t"
  then show "top_k_top_p_filtering_store s r k p = Inr (s(r := t), r)"
    by (simp add: store_result)
next
  assume "top_k_top_p_filtering (s r) k p = Inl e"
  then show "top_k_top_p_filtering_store s r k p = Inl e"
    by (simp add: store_result)
next
  assume "k \<le> 0" "1 \<le> p"
  then show "top_k_top_p_filtering_store s r k p = Inr (s, r)"
    by (rule store_call_disabled)
qed

lemma filter_example:
  "top_k_top_p_filtering [[Fin 1, Fin 3, Fin 2]] 1 1 = Inr [[NegInf, Fin 3, NegInf]]"
  by (simp add: top_k_top_p_filtering_def top_k_stage_def top_p_stage_def kth_largest_def
      sorted_logits_def sorted_indices_def upt_conv_Cons)

theorem filter_writes_through_its_argument_witness:
  "top_k_top_p_filtering [[Fin 1, Fin 3, Fin 2]] 1 1 = Inr [[NegInf, Fin 3, NegInf]] \<and>
   top_k_top_p_filtering_store (\<lambda>_. [[Fin 1, Fin 3, Fin 2]]) 0 1 1 =
     Inr ((\<lambda>_. [[Fin 1, Fin 3, Fin 2]])(0 := [[NegInf, Fin 3, NegInf]]), 0) \<and>
   (0::int) \<le> 0 \<and> (1::real) \<le> 1 \<and>
   top_k_top_p_filtering_store (\<lambda>_. [[Fin 1, Fin 3, Fin 2]]) 0 0 1 =
     Inr (\<lambda>_. [[Fin 1, Fin 3, Fin 2]], 0)"
proof -
  have "top_k_top_p_filtering_store (\<lambda>_. [[Fin 1, Fin 3, Fin 2]]) 0 1 1 =
     Inr ((\<lambda>_. [[Fin 1, Fin 3, Fin 2]])(0 := [[NegInf, Fin 3, NegInf]]), 0)"
    using filter_writes_through_its_argument
      [of "\<lambda>_. [[Fin 1, Fin 3, Fin 2]]" 0 1 1 _ _ "[[NegInf, Fin 3, NegInf]]"] filter_example
    by blast
  moreover have "top_k_top_p_filtering_store (\<lambda>_. [[Fin 1, Fin 3, Fin 2]]) 0 0 1 =
     Inr (\<lambda>_. [[Fin 1, Fin 3, Fin 2]], 0)"
    using filter_writes_through_its_argument [of "\<lambda>_. [[Fin 1, Fin 3, Fin 2]]" 0 0 1]
    by simp
  ultimately show ?thesis
    using filter_example by simp
qed

text \<open>
  C3 as stated fails: with \<open>top_k = 1\<close> the caller's tensor \<open>[[1, 3, 2]]\<close> reads
  \<open>[[-inf, 3, -inf]]\<close> after the call.
\<close>

theorem filter_mutates_argument_counterexample:
  "top_k_top_p_filtering_store (\<lambda>_. [[Fin 1, Fin 3, Fin 2]]) 0 1 1 =
     Inr ((\<lambda>_. [[Fin 1, Fin 3, Fin 2]])(0 := [[NegInf, Fin 3, NegInf]]), 0) \<and>
   ((\<lambda>_. [[Fin 1, Fin 3, Fin 2]])(0 := [[NegInf, Fin 3, NegInf]])) (0::nat)
     \<noteq> [[Fin 1, Fin 3, Fin 2]]"
proof
  show "top_k_top_p_filtering_store (\<lambda>_. [[Fin 1, Fin 3, Fin 2]]) 0 1 1 =
     Inr ((\<lambda>_. [[Fin 1, Fin 3, Fin 2]])(0 := [[NegInf, Fin 3, NegInf]]), 0)"
    unfolding store_result filter_example by simp
  show "((\<lambda>_. [[Fin 1, Fin 3, Fin 2]])(0 := [[NegInf, Fin 3, NegInf]])) (0::nat)
     \<noteq> [[Fin 1, Fin 3, Fin 2]]"
    by simp
qed

subsection \<open>The decode loop\<close>

lemma bindE_eq_Inr: "(bindE m f = Inr y) = (\<exists>x. m = Inr x \<and> f x = Inr y)"
  by (cases m) simp_all

lemma decode_step_shape:
  assumes "decode_step c h a bsz lti i st = Inr st'"
  shows "\<exists>new. length new = length (input_ids st) \<and>
           input_ids st' = map (\<lambda>(r, t). r @ [t]) (zip (input_ids st) new) \<and>
           attention_mask st' = map (\<lambda>m. m @ [1]) (attention_mask st) \<and>
           new_generated_id st' = new \<and>
           queue_for_moss_stopwords st' =
             map (\<lambda>(q, t). drop 1 q @ [t]) (zip (queue_for_moss_stopwords st) new) \<and>
           moss_stop st' =
             map (\<lambda>(s, q). s \<or> stop_match (moss_stopwords c) q)
               (zip (moss_stop st) (queue_for_moss_stopwords st')) \<and>
           all_shall_stop st' = map (\<lambda>(x, y). x \<or> y) (zip (all_shall_stop st) (moss_stop st'))"
  using assms unfolding decode_step_def
  by (auto simp: bindE_eq_Inr Let_def split: if_splits prod.splits)

lemma map_length_snoc:
  "length new = length xs \<Longrightarrow>
   map length (map (\<lambda>(r, t). r @ [t]) (zip xs new)) = map (\<lambda>r. Suc (length r)) xs"
proof (induction xs arbitrary: new)
  case Nil
  then show ?case by simp
next
  case (Cons x xs)
  then show ?case by (cases new) auto
qed

lemma grown_by_init: "grown_by ids amask 0 (init_state c h ids amask)"
  by (simp add: grown_by_def init_state_def)

lemma grown_by_step:
  assumes "grown_by ids amask k s" "decode_step c h a bsz lti i s = Inr s'"
  shows "grown_by ids amask (Suc k) s'"
proof -
  from decode_step_shape [OF assms(2)] obtain new where
    new: "length new = length (input_ids s)"
      "input_ids s' = map (\<lambda>(r, t). r @ [t]) (zip (input_ids s) new)"
      "attention_mask s' = map (\<lambda>m. m @ [1]) (attention_mask s)"
    by blast
  have "map length (input_ids s') = map (\<lambda>r. Suc (length r)) (input_ids s)"
    unfolding new(2) using new(1) by (rule map_length_snoc)
  also have "\<dots> = map Suc (map length (input_ids s))" by simp
  also have "\<dots> = map (\<lambda>r. length r + Suc k) ids"
    using assms(1) by (simp add: grown_by_def)
  finally have 1: "map length (input_ids s') = map (\<lambda>r. length r + Suc k) ids" .
  have 2: "attention_mask s' = map (\<lambda>m. m @ replicate (Suc k) 1) amask"
    using assms(1) by (simp add: new(3) grown_by_def replicate_append_same)
  from 1 2 show ?thesis by (simp add: grown_by_def)
qed

lemma decode_loop_invariant:
  assumes step: "\<And>i k s s'. P k s \<Longrightarrow> decode_step c h a bsz lti i s = Inr s' \<Longrightarrow> P (Suc k) s'"
    and init: "P k st"
  shows "(\<forall>j < length (fst (decode_loop c h a bsz lti n i st)).
            P (k + Suc j) (fst (decode_loop c h a bsz lti n i st) ! j)) \<and>
         (\<forall>s. ending_state (snd (decode_loop c h a bsz lti n i st)) = Some s \<longrightarrow>
            (\<exists>m. k \<le> m \<and> m \<le> k + n \<and> P m s))"
  using init
proof (induction n arbitrary: i st k)
  case 0
  then show ?case by auto
next
  case (Suc n)
  show ?case
  proof (cases "decode_step c h a bsz lti i st")
    case (Inl e)
    then show ?thesis by simp
  next
    case (Inr st')
    have P': "P (Suc k) st'" using Suc.prems Inr by (rule step)
    show ?thesis
    proof (cases "list_all (\<lambda>b. b) (all_shall_stop st') \<or> elapsed h i > max_time a")
      case True
      with Inr P' show ?thesis by (auto intro: exI [of _ "Suc k"])
    next
      case False
      obtain ys e where rec: "decode_loop c h a bsz lti n (Suc i) st' = (ys, e)"
        by (cases "decode_loop c h a bsz lti n (Suc i) st'")
      from Suc.IH [OF P', of "Suc i"] rec
      have ys: "\<forall>j < length ys. P (Suc k + Suc j) (ys ! j)"
        and e: "\<forall>s. ending_state e = Some s \<longrightarrow> (\<exists>m. Suc k \<le> m \<and> m \<le> Suc k + n \<and> P m s)"
        by simp_all
      have res: "decode_loop c h a bsz lti (Suc n) i st = (st' # ys, e)"
        using Inr False rec by simp
      have "\<forall>j < length (st' # ys). P (k + Suc j) ((st' # ys) ! j)"
      proof (intro allI impI)
        fix j assume "j < length (st' # ys)"
        then show "P (k + Suc j) ((st' # ys) ! j)"
          using P' ys by (cases j) auto
      qed
      moreover have "\<forall>s. ending_state e = Some s \<longrightarrow> (\<exists>m. k \<le> m \<and> m \<le> k + Suc n \<and> P m s)"
      proof (intro allI impI)
        fix s assume "ending_state e = Some s"
        with e obtain m where "Suc k \<le> m" "m \<le> Suc k + n" "P m s" by blast
        then show "\<exists>m. k \<le> m \<and> m \<le> k + Suc n \<and> P m s"
          by (intro exI [of _ m]) simp
      qed
      ultimately show ?thesis unfolding res fst_conv snd_conv by blast
    qed
  qed
qed

lemma run_search_grown:
  "(\<forall>j < length (fst (run_search c h ids amask a)).
      grown_by ids amask (Suc j) (fst (run_search c h ids amask a) ! j)) \<and>
   (\<forall>s. ending_state (snd (run_search c h ids amask a)) = Some s \<longrightarrow>
      (\<exists>m. grown_by ids amask m s))"
proof -
  let ?run = "decode_loop c h a (length ids) (map (\<lambda>m. sum_list m - 1) amask)
                (nat (max_iterations a)) 0 (init_state c h ids amask)"
  have "(\<forall>j < length (fst ?run). grown_by ids amask (0 + Suc j) (fst ?run ! j)) \<and>
        (\<forall>s. ending_state (snd ?run) = Some s \<longrightarrow>
           (\<exists>m. 0 \<le> m \<and> m \<le> 0 + nat (max_iterations a) \<and> grown_by ids amask m s))"
  proof (rule decode_loop_invariant [where P = "grown_by ids amask" and k = 0])
    show "grown_by ids amask 0 (init_state c h ids amask)"
      by (rule grown_by_init)
  next
    fix i k s s'
    assume "grown_by ids amask k s"
      "decode_step c h a (length ids) (map (\<lambda>m. sum_list m - 1) amask) i s = Inr s'"
    then show "grown_by ids amask (Suc k) s'"
      by (rule grown_by_step)
  qed
  then show ?thesis
    unfolding run_search_def by auto
qed

lemma grown_by_lengths:
  assumes "map length ids = map length amask" "grown_by ids amask k s"
  shows "map length (input_ids s) = map (\<lambda>r. length r + k) ids"
    and "map length (attention_mask s) = map (\<lambda>r. length r + k) ids"
proof -
  show "map length (input_ids s) = map (\<lambda>r. length r + k) ids"
    using assms(2) by (simp add: grown_by_def)
  have "map length (attention_mask s) = map (\<lambda>n. n + k) (map length amask)"
    using assms(2) by (simp add: grown_by_def o_def)
  also have "\<dots> = map (\<lambda>n. n + k) (map length ids)"
    by (simp only: assms(1))
  finally show "map length (attention_mask s) = map (\<lambda>r. length r + k) ids"
    by (simp add: o_def)
qed

lemmas run_defs = run_search_def streaming_topk_search_def init_state_def decode_step_def
  select_logits_def apply_repetition_penalty_def penalize_row_def gather_row_def scatter_def
  penalize_def top_k_top_p_filtering_def top_k_stage_def top_p_stage_def all_neg_inf_def
  cumulative_probs_def cumsum_def softmax_def sorted_logits_def sorted_indices_def
  apply_length_penalty_def draw_def has_finite_def stop_match_def kth_largest_def
  demo_client_def demo_host_def demo_args_def bad_args_def demo_pick_def Let_def

lemma demo_run:
  "run_search demo_client (demo_host demo_pick) [[0, 1]] [[1, 1]] demo_args =
     ([\<lparr>input_ids = [[0, 1, 1]], attention_mask = [[1, 1, 1]], past_key_values = Some (),
        new_generated_id = [1], queue_for_moss_stopwords = [[1]], moss_stop = [False],
        all_shall_stop = [False]\<rparr>,
       \<lparr>input_ids = [[0, 1, 1, 0]], attention_mask = [[1, 1, 1, 1]], past_key_values = Some (),
        new_generated_id = [0], queue_for_moss_stopwords = [[0]], moss_stop = [False],
        all_shall_stop = [False]\<rparr>],
      Stopped \<lparr>input_ids = [[0, 1, 1, 0, 2]], attention_mask = [[1, 1, 1, 1, 1]],
        past_key_values = Some (), new_generated_id = [2], queue_for_moss_stopwords = [[2]],
        moss_stop = [True], all_shall_stop = [True]\<rparr>)"
  by (simp add: run_defs numeral_3_eq_3 upt_conv_Cons)

lemma demo_first_step:
  "decode_step demo_client (demo_host demo_pick) demo_args 1 [1] 0
     (init_state demo_client (demo_host demo_pick) [[0, 1]] [[1, 1]]) =
   Inr \<lparr>input_ids = [[0, 1, 1]], attention_mask = [[1, 1, 1]], past_key_values = Some (),
        new_generated_id = [1], queue_for_moss_stopwords = [[1]], moss_stop = [False],
        all_shall_stop = [False]\<rparr>"
  by (simp add: run_defs upt_conv_Cons)

text \<open>
  C8. A decode step that completes appends exactly one token (the sampled one) to every
  sequence and exactly one entry 1 to every mask row. So, when the prompt and its mask have
  the same shape, sequence and mask have equal lengths at every observation point of a run:
  before the loop, at the \<open>j\<close>-th yield (where both are \<open>j + 1\<close> longer than the prompt),
  and in the state the run ends in.
\<close>

theorem sequence_and_mask_grow_together:
  "(decode_step c h a bsz lti i st = Inr st' \<longrightarrow>
      (\<exists>new. length new = length (input_ids st) \<and>
         input_ids st' = map (\<lambda>(r, t). r @ [t]) (zip (input_ids st) new)) \<and>
      attention_mask st' = map (\<lambda>m. m @ [1]) (attention_mask st)) \<and>
   (map length ids = map length amask \<longrightarrow>
      map length (input_ids (init_state c h ids amask)) =
        map length (attention_mask (init_state c h ids amask)) \<and>
      (\<forall>j < length (fst (run_search c h ids amask a)).
         map length (input_ids (fst (run_search c h ids amask a) ! j)) =
           map (\<lambda>r. length r + Suc j) ids \<and>
         map length (attention_mask (fst (run_search c h ids amask a) ! j)) =
           map (\<lambda>r. length r + Suc j) ids) \<and>
      (\<forall>s. ending_state (snd (run_search c h ids amask a)) = Some s \<longrightarrow>
         map length (input_ids s) = map length (attention_mask s)))"
proof (intro conjI impI)
  assume "decode_step c h a bsz lti i st = Inr st'"
  from decode_step_shape [OF this]
  show "\<exists>new. length new = length (input_ids st) \<and>
         input_ids st' = map (\<lambda>(r, t). r @ [t]) (zip (input_ids st) new)"
    and "attention_mask st' = map (\<lambda>m. m @ [1]) (attention_mask st)"
    by blast+
next
  assume eq: "map length ids = map length amask"
  then show "map length (input_ids (init_state c h ids amask)) =
        map length (attention_mask (init_state c h ids amask))"
    by (simp add: init_state_def)
  show "\<forall>j < length (fst (run_search c h ids amask a)).
         map length (input_ids (fst (run_search c h ids amask a) ! j)) =
           map (\<lambda>r. length r + Suc j) ids \<and>
         map length (attention_mask (fst (run_search c h ids amask a) ! j)) =
           map (\<lambda>r. length r + Suc j) ids"
    using run_search_grown [of c h ids amask a] grown_by_lengths [OF eq] by blast
  show "\<forall>s. ending_state (snd (run_search c h ids amask a)) = Some s \<longrightarrow>
         map length (input_ids s) = map length (attention_mask s)"
  proof (intro allI impI)
    fix s assume "ending_state (snd (run_search c h ids amask a)) = Some s"
    with run_search_grown [of c h ids amask a] obtain m where "grown_by ids amask m s"
      by blast
    from grown_by_lengths [OF eq this] show "map length (input_ids s) = map length (attention_mask s)"
      by simp
  qed
qed

theorem sequence_and_mask_grow_together_witness:
  "decode_step demo_client (demo_host demo_pick) demo_args 1 [1] 0
     (init_state demo_client (demo_host demo_pick) [[0, 1]] [[1, 1]]) =
   Inr \<lparr>input_ids = [[0, 1, 1]], attention_mask = [[1, 1, 1]], past_key_values = Some (),
        new_generated_id = [1], queue_for_moss_stopwords = [[1]], moss_stop = [False],
        all_shall_stop = [False]\<rparr> \<and>
   map length [[0, 1 :: int]] = map length [[1, 1 :: int]] \<and>
   map input_ids (fst (run_search demo_client (demo_host demo_pick) [[0, 1]] [[1, 1]] demo_args)) =
     [[[0, 1, 1]], [[0, 1, 1, 0]]] \<and>
   map attention_mask (fst (run_search demo_client (demo_host demo_pick) [[0, 1]] [[1, 1]] demo_args)) =
     [[[1, 1, 1]], [[1, 1, 1, 1]]] \<and>
   ending_state (snd (run_search demo_client (demo_host demo_pick) [[0, 1]] [[1, 1]] demo_args)) =
     Some \<lparr>input_ids = [[0, 1, 1, 0, 2]], attention_mask = [[1, 1, 1, 1, 1]],
        past_key_values = Some (), new_generated_id = [2], queue_for_moss_stopwords = [[2]],
        moss_stop = [True], all_shall_stop = [True]\<rparr>"
  using sequence_and_mask_grow_together [of demo_client "demo_host demo_pick" demo_args 1 "[1]" 0
      "init_state demo_client (demo_host demo_pick) [[0, 1]] [[1, 1]]"
      "\<lparr>input_ids = [[0, 1, 1]], attention_mask = [[1, 1, 1]], past_key_values = Some (),
        new_generated_id = [1], queue_for_moss_stopwords = [[1]], moss_stop = [False],
        all_shall_stop = [False]\<rparr>" "[[0, 1]]" "[[1, 1]]"]
    demo_run demo_first_step
  by simp

subsection \<open>Stopping on the first token\<close>

lemma map_snoc_replicate:
  "map (\<lambda>(r, t). r @ [t]) (zip xs (replicate (length xs) t)) = map (\<lambda>r. r @ [t]) xs"
  by (induction xs) auto

lemma first_step_stops:
  assumes stop: "moss_stopwords c = [t]"
    and step: "decode_step c h a bsz lti i (init_state c h ids amask) = Inr st'"
    and new: "new_generated_id st' = replicate (length ids) t"
  shows "list_all (\<lambda>b. b) (all_shall_stop st')" and "input_ids st' = map (\<lambda>r. r @ [t]) ids"
proof -
  let ?st = "init_state c h ids amask"
  from decode_step_shape [OF step] new have
    ids': "input_ids st' = map (\<lambda>(r, t). r @ [t]) (zip (input_ids ?st) (replicate (length ids) t))"
    and q: "queue_for_moss_stopwords st' =
             map (\<lambda>(q, t). drop 1 q @ [t])
               (zip (queue_for_moss_stopwords ?st) (replicate (length ids) t))"
    and m: "moss_stop st' =
             map (\<lambda>(s, q). s \<or> stop_match (moss_stopwords c) q)
               (zip (moss_stop ?st) (queue_for_moss_stopwords st'))"
    and al: "all_shall_stop st' = map (\<lambda>(x, y). x \<or> y) (zip (all_shall_stop ?st) (moss_stop st'))"
    by auto
  have q0: "\<forall>q \<in> set (queue_for_moss_stopwords ?st). length q = 1"
    by (simp add: init_state_def stop)
  have "\<forall>q \<in> set (queue_for_moss_stopwords st'). q = [t]"
  proof
    fix q' assume "q' \<in> set (queue_for_moss_stopwords st')"
    then obtain q0' t' where
      z: "(q0', t') \<in> set (zip (queue_for_moss_stopwords ?st) (replicate (length ids) t))"
      and q': "q' = drop 1 q0' @ [t']"
      unfolding q by auto
    from z have "q0' \<in> set (queue_for_moss_stopwords ?st)" "t' \<in> set (replicate (length ids) t)"
      by (auto dest: set_zip_leftD set_zip_rightD)
    with q0 have "length q0' = 1" "t' = t" by auto
    then show "q' = [t]" by (simp add: q')
  qed
  then have "\<forall>b \<in> set (moss_stop st'). b"
    unfolding m by (auto simp: stop stop_match_def dest!: set_zip_rightD)
  then have "\<forall>b \<in> set (all_shall_stop st'). b"
    unfolding al by (auto dest!: set_zip_rightD)
  then show "list_all (\<lambda>b. b) (all_shall_stop st')"
    by (simp add: list_all_iff)
  show "input_ids st' = map (\<lambda>r. r @ [t]) ids"
    unfolding ids' by (simp add: init_state_def map_snoc_replicate)
qed


lemma decode_loop_first_stop:
  assumes "decode_step c h a bsz lti i st = Inr st'" "list_all (\<lambda>b. b) (all_shall_stop st')"
  shows "decode_loop c h a bsz lti (Suc n) i st = ([], Stopped st')"
  using assms by simp

text \<open>
  C1 (as the code has it). With a stop pattern of one token, as the client configures it, and
  at least one iteration allowed: when the first step completes and every row has sampled the
  stop token, the loop leaves right after that step in the state \<open>Stopped\<close>, every sequence
  is its prompt followed by the stop token, and nothing has been yielded, because the test
  that leaves the loop comes before the yield.
\<close>

theorem stop_on_first_token_yields_nothing:
  "0 < max_iterations a \<longrightarrow> moss_stopwords c = [t] \<longrightarrow>
   decode_step c h a (length ids) (map (\<lambda>m. sum_list m - 1) amask) 0 (init_state c h ids amask)
     = Inr st' \<longrightarrow>
   new_generated_id st' = replicate (length ids) t \<longrightarrow>
     run_search c h ids amask a = ([], Stopped st') \<and>
     streaming_topk_search c h ids amask a = [] \<and>
     input_ids st' = map (\<lambda>r. r @ [t]) ids"
proof (intro impI)
  assume it: "0 < max_iterations a" and stop: "moss_stopwords c = [t]"
    and step: "decode_step c h a (length ids) (map (\<lambda>m. sum_list m - 1) amask) 0
                 (init_state c h ids amask) = Inr st'"
    and new: "new_generated_id st' = replicate (length ids) t"
  from it obtain n where n: "nat (max_iterations a) = Suc n"
    by (cases "nat (max_iterations a)") auto
  have run: "run_search c h ids amask a = ([], Stopped st')"
    unfolding run_search_def n
    using step first_step_stops(1) [OF stop step new] by (rule decode_loop_first_stop)
  then show "run_search c h ids amask a = ([], Stopped st') \<and>
     streaming_topk_search c h ids amask a = [] \<and>
     input_ids st' = map (\<lambda>r. r @ [t]) ids"
    using first_step_stops(2) [OF stop step new] by (simp add: streaming_topk_search_def)
qed

lemma demo_stop_step:
  "decode_step demo_client (demo_host (\<lambda>i. 2)) demo_args (length [[0, 1 :: int]])
     (map (\<lambda>m. sum_list m - 1) [[1, 1]]) 0
     (init_state demo_client (demo_host (\<lambda>i. 2)) [[0, 1]] [[1, 1]]) =
   Inr \<lparr>input_ids = [[0, 1, 2]], attention_mask = [[1, 1, 1]], past_key_values = Some (),
        new_generated_id = [2], queue_for_moss_stopwords = [[2]], moss_stop = [True],
        all_shall_stop = [True]\<rparr>"
  by (simp add: run_defs upt_conv_Cons)

theorem stop_on_first_token_yields_nothing_witness:
  "0 < max_iterations demo_args \<and> moss_stopwords demo_client = [2] \<and>
   run_search demo_client (demo_host (\<lambda>i. 2)) [[0, 1]] [[1, 1]] demo_args =
     ([], Stopped \<lparr>input_ids = [[0, 1, 2]], attention_mask = [[1, 1, 1]],
        past_key_values = Some (), new_generated_id = [2], queue_for_moss_stopwords = [[2]],
        moss_stop = [True], all_shall_stop = [True]\<rparr>) \<and>
   streaming_topk_search demo_client (demo_host (\<lambda>i. 2)) [[0, 1]] [[1, 1]] demo_args = []"
  using stop_on_first_token_yields_nothing [of demo_args demo_client 2 "demo_host (\<lambda>i. 2)"
      "[[0, 1]]" "[[1, 1]]"
      "\<lparr>input_ids = [[0, 1, 2]], attention_mask = [[1, 1, 1]], past_key_values = Some (),
        new_generated_id = [2], queue_for_moss_stopwords = [[2]], moss_stop = [True],
        all_shall_stop = [True]\<rparr>"]
    demo_stop_step
  by (simp add: demo_args_def demo_client_def)

text \<open>
  C1 as stated fails: the stop pattern is the first sampled token, the run ends \<open>Stopped\<close>
  after the first step, and the consumer receives no snapshot rather than exactly one.
\<close>

theorem stop_on_first_token_one_snapshot_counterexample:
  "moss_stopwords demo_client = [2] \<and>
   multinomial (demo_host (\<lambda>i. 2)) 0 0 [1 / 3, 1 / 3, 1 / 3] = Inr 2 \<and>
   snd (run_search demo_client (demo_host (\<lambda>i. 2)) [[0, 1]] [[1, 1]] demo_args) =
     Stopped \<lparr>input_ids = [[0, 1, 2]], attention_mask = [[1, 1, 1]],
        past_key_values = Some (), new_generated_id = [2], queue_for_moss_stopwords = [[2]],
        moss_stop = [True], all_shall_stop = [True]\<rparr> \<and>
   length (streaming_topk_search demo_client (demo_host (\<lambda>i. 2)) [[0, 1]] [[1, 1]] demo_args) \<noteq> 1"
  by (simp add: run_defs numeral_3_eq_3 upt_conv_Cons)

subsection \<open>Sampling parameters out of range\<close>

lemma top_k_stage_nonpos: "k \<le> 0 \<Longrightarrow> top_k_stage k = top_k_stage 0"
  by (rule ext) (simp add: top_k_stage_def)

lemma top_p_stage_ge_one: "1 \<le> p \<Longrightarrow> top_p_stage p = top_p_stage 1"
  by (rule ext) (simp add: top_p_stage_def)

lemma apply_length_penalty_cong:
  "regulation_start a' = regulation_start a \<Longrightarrow> length_penalty a' = length_penalty a \<Longrightarrow>
   apply_length_penalty c a' i probabilities = apply_length_penalty c a i probabilities"
  by (simp add: apply_length_penalty_def)

lemma draw_cong:
  "temperature a' = temperature a \<Longrightarrow>
   draw h a' i filtered probabilities = draw h a i filtered probabilities"
  by (simp add: draw_def)

lemma decode_step_top_k_nonpos:
  assumes "top_k a \<le> 0"
  shows "decode_step c h (a\<lparr>top_k := 0\<rparr>) bsz lti i st = decode_step c h a bsz lti i st"
proof -
  have 1: "top_k_top_p_filtering x (top_k (a\<lparr>top_k := 0\<rparr>)) (top_p (a\<lparr>top_k := 0\<rparr>)) =
        top_k_top_p_filtering x (top_k a) (top_p a)" for x
    by (simp add: top_k_top_p_filtering_def top_k_stage_nonpos [OF assms])
  have 2: "apply_length_penalty c (a\<lparr>top_k := 0\<rparr>) = apply_length_penalty c a"
    by (intro ext apply_length_penalty_cong) simp_all
  have 3: "draw h (a\<lparr>top_k := 0\<rparr>) = draw h a"
    by (intro ext draw_cong) simp
  have 4: "repetition_penalty (a\<lparr>top_k := 0\<rparr>) = repetition_penalty a"
    "temperature (a\<lparr>top_k := 0\<rparr>) = temperature a"
    by simp_all
  show ?thesis
    unfolding decode_step_def 1 2 3 4 ..
qed

lemma decode_step_top_p_ge_one:
  assumes "1 \<le> top_p a"
  shows "decode_step c h (a\<lparr>top_p := 1\<rparr>) bsz lti i st = decode_step c h a bsz lti i st"
proof -
  have 1: "top_k_top_p_filtering x (top_k (a\<lparr>top_p := 1\<rparr>)) (top_p (a\<lparr>top_p := 1\<rparr>)) =
        top_k_top_p_filtering x (top_k a) (top_p a)" for x
    by (simp add: top_k_top_p_filtering_def top_p_stage_ge_one [OF assms])
  have 2: "apply_length_penalty c (a\<lparr>top_p := 1\<rparr>) = apply_length_penalty c a"
    by (intro ext apply_length_penalty_cong) simp_all
  have 3: "draw h (a\<lparr>top_p := 1\<rparr>) = draw h a"
    by (intro ext draw_cong) simp
  have 4: "repetition_penalty (a\<lparr>top_p := 1\<rparr>) = repetition_penalty a"
    "temperature (a\<lparr>top_p := 1\<rparr>) = temperature a"
    by simp_all
  show ?thesis
    unfolding decode_step_def 1 2 3 4 ..
qed

lemma decode_loop_cong:
  assumes step: "\<And>i st. decode_step c h a' bsz lti i st = decode_step c h a bsz lti i st"
    and time: "max_time a' = max_time a"
  shows "decode_loop c h a' bsz lti n i st = decode_loop c h a bsz lti n i st"
proof (induction n arbitrary: i st)
  case 0
  show ?case by simp
next
  case (Suc n)
  show ?case
    unfolding decode_loop.simps step time Suc.IH ..
qed

lemma decode_loop_infer_fails:
  assumes "infer h (input_ids st) (attention_mask st) (past_key_values st) = Inl e"
  shows "decode_loop c h a bsz lti (Suc n) 0 st = ([], Raised e)"
  using assms by (simp add: decode_step_def)

text \<open>
  C2 (as the code has it). The sampling parameters are not validated. A \<open>top_k\<close> that is not
  positive, negative values included, gives the same run as \<open>top_k = 0\<close>, and a \<open>top_p\<close> of
  at least 1, values above 1 included, gives the same run as \<open>top_p = 1\<close>: the filter stage
  is skipped. Whatever the sampling parameters, a run of at least one iteration begins with
  the forward pass of the model on the prompt, and when that pass fails the run ends with its
  failure.
\<close>

theorem sampling_parameters_are_not_validated:
  "(top_k a \<le> 0 \<longrightarrow>
      run_search c h ids amask a = run_search c h ids amask (a\<lparr>top_k := 0\<rparr>)) \<and>
   (1 \<le> top_p a \<longrightarrow>
      run_search c h ids amask a = run_search c h ids amask (a\<lparr>top_p := 1\<rparr>)) \<and>
   (0 < max_iterations a \<longrightarrow> infer h ids amask None = Inl e \<longrightarrow>
      run_search c h ids amask a = ([], Raised e))"
proof (intro conjI impI)
  assume k: "top_k a \<le> 0"
  have "decode_loop c h (a\<lparr>top_k := 0\<rparr>) (length ids) (map (\<lambda>m. sum_list m - 1) amask)
          (nat (max_iterations a)) 0 (init_state c h ids amask) =
        decode_loop c h a (length ids) (map (\<lambda>m. sum_list m - 1) amask)
          (nat (max_iterations a)) 0 (init_state c h ids amask)"
    by (rule decode_loop_cong) (simp_all add: decode_step_top_k_nonpos [OF k])
  then show "run_search c h ids amask a = run_search c h ids amask (a\<lparr>top_k := 0\<rparr>)"
    by (simp add: run_search_def)
next
  assume p: "1 \<le> top_p a"
  have "decode_loop c h (a\<lparr>top_p := 1\<rparr>) (length ids) (map (\<lambda>m. sum_list m - 1) amask)
          (nat (max_iterations a)) 0 (init_state c h ids amask) =
        decode_loop c h a (length ids) (map (\<lambda>m. sum_list m - 1) amask)
          (nat (max_iterations a)) 0 (init_state c h ids amask)"
    by (rule decode_loop_cong) (simp_all add: decode_step_top_p_ge_one [OF p])
  then show "run_search c h ids amask a = run_search c h ids amask (a\<lparr>top_p := 1\<rparr>)"
    by (simp add: run_search_def)
next
  assume it: "0 < max_iterations a" and f: "infer h ids amask None = Inl e"
  from it obtain n where n: "nat (max_iterations a) = Suc n"
    by (cases "nat (max_iterations a)") auto
  show "run_search c h ids amask a = ([], Raised e)"
    unfolding run_search_def n
    by (rule decode_loop_infer_fails) (simp add: init_state_def f)
qed

lemma bad_run:
  "run_search demo_client (demo_host demo_pick) [[0, 1]] [[1, 1]] bad_args =
     ([\<lparr>input_ids = [[0, 1, 1]], attention_mask = [[1, 1, 1]], past_key_values = Some (),
        new_generated_id = [1], queue_for_moss_stopwords = [[1]], moss_stop = [False],
        all_shall_stop = [False]\<rparr>],
      Truncated \<lparr>input_ids = [[0, 1, 1]], attention_mask = [[1, 1, 1]],
        past_key_values = Some (), new_generated_id = [1], queue_for_moss_stopwords = [[1]],
        moss_stop = [False], all_shall_stop = [False]\<rparr>)"
  by (simp add: run_defs upt_conv_Cons)

theorem sampling_parameters_are_not_validated_witness:
  "top_k bad_args \<le> 0 \<and> 1 \<le> top_p bad_args \<and>
   run_search demo_client (demo_host demo_pick) [[0, 1]] [[1, 1]] (bad_args\<lparr>top_k := 0\<rparr>) =
     ([\<lparr>input_ids = [[0, 1, 1]], attention_mask = [[1, 1, 1]], past_key_values = Some (),
        new_generated_id = [1], queue_for_moss_stopwords = [[1]], moss_stop = [False],
        all_shall_stop = [False]\<rparr>],
      Truncated \<lparr>input_ids = [[0, 1, 1]], attention_mask = [[1, 1, 1]],
        past_key_values = Some (), new_generated_id = [1], queue_for_moss_stopwords = [[1]],
        moss_stop = [False], all_shall_stop = [False]\<rparr>) \<and>
   run_search demo_client (demo_host demo_pick) [[0, 1]] [[1, 1]] (bad_args\<lparr>top_p := 1\<rparr>) =
     run_search demo_client (demo_host demo_pick) [[0, 1]] [[1, 1]] (bad_args\<lparr>top_k := 0\<rparr>) \<and>
   0 < max_iterations bad_args \<and>
   run_search demo_client ((demo_host demo_pick)\<lparr>infer := \<lambda>ids m pkv. Inl RuntimeError\<rparr>)
       [[0, 1]] [[1, 1]] bad_args = ([], Raised RuntimeError)"
proof -
  have k: "top_k bad_args \<le> 0" and p: "1 \<le> top_p bad_args" and it: "0 < max_iterations bad_args"
    by (simp_all add: bad_args_def)
  have f: "infer ((demo_host demo_pick)\<lparr>infer := \<lambda>ids m pkv. Inl RuntimeError\<rparr>)
             [[0, 1]] [[1, 1]] None = Inl RuntimeError"
    by simp
  note inst = sampling_parameters_are_not_validated [of bad_args demo_client "demo_host demo_pick"
        "[[0, 1]]" "[[1, 1]]" RuntimeError]
  have 1: "run_search demo_client (demo_host demo_pick) [[0, 1]] [[1, 1]] (bad_args\<lparr>top_k := 0\<rparr>) =
        run_search demo_client (demo_host demo_pick) [[0, 1]] [[1, 1]] bad_args"
    using inst k by metis
  have 2: "run_search demo_client (demo_host demo_pick) [[0, 1]] [[1, 1]] (bad_args\<lparr>top_p := 1\<rparr>) =
        run_search demo_client (demo_host demo_pick) [[0, 1]] [[1, 1]] bad_args"
    using inst p by metis
  have 3: "run_search demo_client ((demo_host demo_pick)\<lparr>infer := \<lambda>ids m pkv. Inl RuntimeError\<rparr>)
       [[0, 1]] [[1, 1]] bad_args = ([], Raised RuntimeError)"
    using sampling_parameters_are_not_validated [of bad_args demo_client
      "(demo_host demo_pick)\<lparr>infer := \<lambda>ids m pkv. Inl RuntimeError\<rparr>" "[[0, 1]]" "[[1, 1]]"
      RuntimeError] it f by blast
  show ?thesis
    unfolding 1 2 bad_run using k p it 3 by (intro conjI refl)
qed

text \<open>
  C2 as stated fails: with a negative temperature, a negative \<open>top_k\<close> and a \<open>top_p\<close> above
  1 the generator raises nothing; it runs its step and yields a snapshot.
\<close>

theorem invalid_parameters_generate_counterexample:
  "temperature bad_args \<le> 0 \<and> top_k bad_args < 0 \<and> 1 < top_p bad_args \<and>
   streaming_topk_search demo_client (demo_host demo_pick) [[0, 1]] [[1, 1]] bad_args =
     [[[0, 1, 1]]] \<and>
   snd (run_search demo_client (demo_host demo_pick) [[0, 1]] [[1, 1]] bad_args) =
     Truncated \<lparr>input_ids = [[0, 1, 1]], attention_mask = [[1, 1, 1]],
        past_key_values = Some (), new_generated_id = [1], queue_for_moss_stopwords = [[1]],
        moss_stop = [False], all_shall_stop = [False]\<rparr>"
  by (simp add: streaming_topk_search_def bad_run) (simp add: bad_args_def)

subsection \<open>The streamed text\<close>

lemma yields_one_row:
  assumes "outputs \<in> set (streaming_topk_search c h [i] [m] a)"
  shows "\<exists>x. outputs = [x]"
proof -
  from assms obtain s where s: "s \<in> set (fst (run_search c h [i] [m] a))" "outputs = input_ids s"
    by (auto simp: streaming_topk_search_def)
  then obtain j where "j < length (fst (run_search c h [i] [m] a))"
      "s = fst (run_search c h [i] [m] a) ! j"
    by (auto simp: in_set_conv_nth)
  with run_search_grown [of c h "[i]" "[m]" a] have "grown_by [i] [m] (Suc j) s"
    by blast
  then have "map length (input_ids s) = [length i + Suc j]"
    by (simp add: grown_by_def)
  then have "length (input_ids s) = 1"
    by (metis length_map length_Cons list.size(3) One_nat_def)
  then show ?thesis
    unfolding s(2) by (cases "input_ids s") auto
qed

lemma forward_eq:
  "forward c h data ps =
     map (\<lambda>outputs. Inr (lstrip (decode h (hd outputs)) data))
       (streaming_topk_search c h [fst (tokenize h data)] [snd (tokenize h data)]
          (forward_args c ps))"
proof -
  have "\<And>outputs. outputs \<in> set (streaming_topk_search c h [fst (tokenize h data)]
            [snd (tokenize h data)] (forward_args c ps)) \<Longrightarrow>
      (let preds = map (decode h) outputs; res = map (\<lambda>pred. lstrip pred data) preds
       in (case res of [] \<Rightarrow> Inl IndexError | r # _ \<Rightarrow> Inr r)) =
      Inr (lstrip (decode h (hd outputs)) data)"
  proof -
    fix outputs
    assume "outputs \<in> set (streaming_topk_search c h [fst (tokenize h data)]
            [snd (tokenize h data)] (forward_args c ps))"
    then obtain x where "outputs = [x]" using yields_one_row by blast
    then show "(let preds = map (decode h) outputs; res = map (\<lambda>pred. lstrip pred data) preds
       in (case res of [] \<Rightarrow> Inl IndexError | r # _ \<Rightarrow> Inr r)) =
      Inr (lstrip (decode h (hd outputs)) data)"
      by simp
  qed
  then show ?thesis
    unfolding forward_def preprocess_def
    by (cases "tokenize h data") (simp cong: map_cong)
qed

text \<open>
  C10. Every text that \<open>forward\<close> yields is the decoded first row of a snapshot with its
  leading characters dropped for as long as they occur in the prompt text: what is removed
  consists of characters of the prompt only, and what remains is empty or starts with a
  character that does not occur in the prompt. This is not the removal of the prompt as a
  prefix: when a decoded text is the prompt followed by a generated text whose first character
  occurs in the prompt, that character (and any that follow it and occur in the prompt) is
  missing from the result.
\<close>

theorem forward_strips_prompt_characters:
  "forward c h data ps =
     map (\<lambda>outputs. Inr (dropWhile (\<lambda>x. x \<in> set data) (decode h (hd outputs))))
       (streaming_topk_search c h [fst (tokenize h data)] [snd (tokenize h data)]
          (forward_args c ps)) \<and>
   (\<exists>pre. pred = pre @ lstrip pred data \<and> set pre \<subseteq> set data \<and>
      (lstrip pred data = [] \<or> hd (lstrip pred data) \<notin> set data)) \<and>
   (gen \<noteq> [] \<longrightarrow> hd gen \<in> set data \<longrightarrow>
      lstrip (data @ gen) data = lstrip (tl gen) data \<and>
      length (lstrip (data @ gen) data) < length gen)"
proof (intro conjI impI)
  show "forward c h data ps =
     map (\<lambda>outputs. Inr (dropWhile (\<lambda>x. x \<in> set data) (decode h (hd outputs))))
       (streaming_topk_search c h [fst (tokenize h data)] [snd (tokenize h data)]
          (forward_args c ps))"
    by (simp add: forward_eq lstrip_dropWhile)
  show "\<exists>pre. pred = pre @ lstrip pred data \<and> set pre \<subseteq> set data \<and>
      (lstrip pred data = [] \<or> hd (lstrip pred data) \<notin> set data)"
    by (rule lstrip_split)
next
  assume g: "gen \<noteq> []" "hd gen \<in> set data"
  then show "lstrip (data @ gen) data = lstrip (tl gen) data"
    by (cases gen) (simp_all add: lstrip_prompt_prefix)
  from g show "length (lstrip (data @ gen) data) < length gen"
    by (rule lstrip_loses_generated)
qed

lemma demo_stream:
  "streaming_topk_search demo_client (demo_host demo_pick) [[0, 1]] [[1, 1]]
     (forward_args demo_client None) = [[[0, 1, 1]], [[0, 1, 1, 0]]]"
  by (simp add: forward_args_def run_defs numeral_3_eq_3 upt_conv_Cons)

theorem forward_strips_prompt_characters_witness:
  "decode (demo_host demo_pick) [0, 1, 1] = ''abb'' \<and>
   decode (demo_host demo_pick) [0, 1, 1, 0] = ''abba'' \<and>
   forward demo_client (demo_host demo_pick) ''ab'' None = [Inr [], Inr []] \<and>
   ''ba!'' \<noteq> [] \<and> hd ''ba!'' \<in> set ''ab'' \<and>
   lstrip (''ab'' @ ''ba!'') ''ab'' = ''!''"
  using forward_strips_prompt_characters [of demo_client "demo_host demo_pick" "''ab''" None
      "''abba''" "''ba!''"] demo_stream
  by (simp add: demo_host_def)

subsection \<open>The filter on a batch\<close>

lemma mapE_eq_Inr:
  "mapE f xs = Inr ys \<Longrightarrow> length ys = length xs \<and> (\<forall>b < length xs. f (xs ! b) = Inr (ys ! b))"
proof (induction xs arbitrary: ys)
  case Nil
  then show ?case by simp
next
  case (Cons x xs)
  from Cons.prems obtain y ys' where y: "f x = Inr y" and ys': "mapE f xs = Inr ys'"
    and ys: "ys = y # ys'"
    by (auto simp: bindE_eq_Inr)
  from Cons.IH [OF ys'] have "length ys' = length xs" "\<forall>b < length xs. f (xs ! b) = Inr (ys' ! b)"
    by simp_all
  then show ?case
    using y by (auto simp: ys nth_Cons split: nat.splits)
qed

lemma mapE_all_Inr:
  "(\<And>x. x \<in> set xs \<Longrightarrow> \<exists>y. f x = Inr y) \<Longrightarrow> \<exists>ys. mapE f xs = Inr ys"
proof (induction xs)
  case Nil
  then show ?case by simp
next
  case (Cons x xs)
  then obtain y ys where "f x = Inr y" "mapE f xs = Inr ys"
    by (metis list.set_intros(1) list.set_intros(2))
  then show ?case by simp
qed

lemma top_k_stage_length: "top_k_stage k row = Inr r \<Longrightarrow> length r = length row"
  by (auto simp: top_k_stage_def split: if_splits)

lemma filtering_rows:
  assumes "top_k_top_p_filtering logits k p = Inr outs"
  shows "\<exists>mid. mapE (top_k_stage k) logits = Inr mid \<and> length mid = length logits \<and>
           length outs = length logits \<and>
           (\<forall>b < length logits.
              top_k_stage k (logits ! b) = Inr (mid ! b) \<and>
              length (mid ! b) = length (logits ! b) \<and>
              top_p_stage p (mid ! b) = Inr (outs ! b))"
proof -
  from assms obtain mid where mid: "mapE (top_k_stage k) logits = Inr mid"
    and outs: "mapE (top_p_stage p) mid = Inr outs"
    by (auto simp: top_k_top_p_filtering_def bindE_eq_Inr)
  from mapE_eq_Inr [OF mid] have 1: "length mid = length logits"
    and 2: "\<forall>b < length logits. top_k_stage k (logits ! b) = Inr (mid ! b)"
    by simp_all
  from mapE_eq_Inr [OF outs] 1 have 3: "length outs = length logits"
    and 4: "\<forall>b < length logits. top_p_stage p (mid ! b) = Inr (outs ! b)"
    by simp_all
  from 2 have 5: "\<forall>b < length logits. length (mid ! b) = length (logits ! b)"
    by (auto dest: top_k_stage_length)
  from mid 1 2 3 4 5 show ?thesis by blast
qed

lemma top_p_stage_returns: "row \<noteq> [] \<Longrightarrow> \<exists>out. top_p_stage p row = Inr out"
  by (simp add: top_p_stage_def Let_def)

lemma filtering_returns:
  assumes mid: "mapE (top_k_stage k) logits = Inr mid" and ne: "[] \<notin> set logits"
  shows "\<exists>outs. top_k_top_p_filtering logits k p = Inr outs"
proof -
  have "\<And>row. row \<in> set mid \<Longrightarrow> \<exists>out. top_p_stage p row = Inr out"
  proof -
    fix row assume "row \<in> set mid"
    then obtain b where b: "b < length mid" "row = mid ! b"
      by (auto simp: in_set_conv_nth)
    from mapE_eq_Inr [OF mid] b have "top_k_stage k (logits ! b) = Inr row" "b < length logits"
      by simp_all
    then have "length row = length (logits ! b)" "logits ! b \<in> set logits"
      by (auto dest: top_k_stage_length)
    with ne have "row \<noteq> []" by auto
    then show "\<exists>out. top_p_stage p row = Inr out" by (rule top_p_stage_returns)
  qed
  then obtain outs where "mapE (top_p_stage p) mid = Inr outs"
    using mapE_all_Inr [of mid "top_p_stage p"] by blast
  then show ?thesis
    by (simp add: top_k_top_p_filtering_def mid)
qed

lemma expl_nonneg: "0 \<le> expl x"
  by (cases x) simp_all

lemma softmax_nonneg: "t < length row \<Longrightarrow> 0 \<le> softmax row ! t"
proof -
  assume t: "t < length row"
  have "0 \<le> sum_list (map expl row)"
    by (rule sum_list_nonneg) (auto simp: expl_nonneg)
  then have "0 \<le> expl (row ! t) / sum_list (map expl row)"
    by (intro divide_nonneg_nonneg expl_nonneg)
  with t show ?thesis by (simp add: softmax_def)
qed

lemma sum_expl_sorted: "sum_list (map expl (sorted_logits row)) = sum_list (map expl row)"
proof -
  have "mset (map expl (sorted_logits row)) = mset (map expl row)"
    by (simp add: mset_sorted_logits)
  then show ?thesis
    by (metis sum_mset_sum_list)
qed

lemma softmax_sorted_nth:
  "m < length row \<Longrightarrow> softmax (sorted_logits row) ! m = softmax row ! (sorted_indices row ! m)"
  using sorted_indices_nth_less [of m row]
  by (simp add: softmax_def sum_expl_sorted length_sorted_logits)
     (simp add: sorted_logits_def length_sorted_indices)

lemma sum_list_take_nth: "j \<le> length xs \<Longrightarrow> sum_list (take j xs) = (\<Sum>m<j. xs ! m)"
proof -
  assume j: "j \<le> length xs"
  have "sum_list (take j xs) = (\<Sum>m = 0..<length (take j xs). take j xs ! m)"
    by (rule sum_list_sum_nth)
  also have "\<dots> = (\<Sum>m = 0..<j. xs ! m)"
    using j by (simp add: min_absorb2)
  finally show ?thesis by (simp add: lessThan_atLeast0)
qed

lemma sorted_prefix_mass:
  assumes j: "j < length row"
  shows "sum_list (take j (softmax (sorted_logits row))) =
         (\<Sum>t \<in> (\<lambda>m. sorted_indices row ! m) ` {..<j}. softmax row ! t)"
proof -
  have len: "length (softmax (sorted_logits row)) = length row"
    by (simp add: softmax_def length_sorted_logits)
  have "sum_list (take j (softmax (sorted_logits row))) = (\<Sum>m<j. softmax (sorted_logits row) ! m)"
    using j by (simp add: sum_list_take_nth len)
  also have "\<dots> = (\<Sum>m<j. softmax row ! (sorted_indices row ! m))"
    using j by (intro sum.cong refl) (simp add: softmax_sorted_nth)
  also have "\<dots> = (\<Sum>t \<in> (\<lambda>m. sorted_indices row ! m) ` {..<j}. softmax row ! t)"
  proof -
    have "inj_on (\<lambda>m. sorted_indices row ! m) {..<j}"
      using j by (intro inj_on_nth) (simp_all add: distinct_sorted_indices length_sorted_indices)
    then show ?thesis by (simp add: sum.reindex)
  qed
  finally show ?thesis .
qed

lemma sorted_position:
  assumes "i < length row"
  obtains j where "j < length row" "sorted_indices row ! j = i"
proof -
  from assms have "i \<in> set (sorted_indices row)"
    by (simp add: set_sorted_indices)
  then show ?thesis
    using that by (auto simp: in_set_conv_nth length_sorted_indices)
qed

lemma sorted_indices_desc_nth:
  "m < j \<Longrightarrow> j < length row \<Longrightarrow>
   row ! (sorted_indices row ! j) \<le> row ! (sorted_indices row ! m)"
  using desc_sorted_indices [of row]
  by (simp add: sorted_wrt_iff_nth_less length_sorted_indices)

lemma above_in_prefix:
  assumes j: "j < length row"
  shows "{t. t < length row \<and> row ! (sorted_indices row ! j) < row ! t}
           \<subseteq> (\<lambda>m. sorted_indices row ! m) ` {..<j}"
proof
  fix t assume "t \<in> {t. t < length row \<and> row ! (sorted_indices row ! j) < row ! t}"
  then have t: "t < length row" "row ! (sorted_indices row ! j) < row ! t" by simp_all
  from t(1) obtain m where m: "m < length row" "sorted_indices row ! m = t"
    by (rule sorted_position)
  have "m < j"
  proof (rule ccontr)
    assume "\<not> m < j"
    then have "m = j \<or> j < m" by auto
    then show False
    proof
      assume "m = j" with m t show False by simp
    next
      assume "j < m"
      from sorted_indices_desc_nth [OF this m(1)] m(2) t(2) show False by simp
    qed
  qed
  with m show "t \<in> (\<lambda>m. sorted_indices row ! m) ` {..<j}" by auto
qed

lemma prefix_in_not_below:
  assumes j: "j < length row"
  shows "(\<lambda>m. sorted_indices row ! m) ` {..<j}
           \<subseteq> {t. t < length row \<and> t \<noteq> sorted_indices row ! j \<and>
                  row ! (sorted_indices row ! j) \<le> row ! t}"
proof
  fix t assume "t \<in> (\<lambda>m. sorted_indices row ! m) ` {..<j}"
  then obtain m where m: "m < j" "t = sorted_indices row ! m" by auto
  with j have "t < length row"
    by (simp add: sorted_indices_nth_less)
  moreover have "t \<noteq> sorted_indices row ! j"
    using m j distinct_sorted_indices [of row]
    by (simp add: nth_eq_iff_index_eq length_sorted_indices)
  moreover have "row ! (sorted_indices row ! j) \<le> row ! t"
    using sorted_indices_desc_nth [OF m(1) j] by (simp add: m(2))
  ultimately show "t \<in> {t. t < length row \<and> t \<noteq> sorted_indices row ! j \<and>
                  row ! (sorted_indices row ! j) \<le> row ! t}"
    by simp
qed

lemma top_p_stage_any_tie_order:
  assumes p: "p < 1" and i: "i < length row" and out: "top_p_stage p row = Inr out"
  shows "(\<exists>t < length row. row ! i < row ! t) \<Longrightarrow>
         p < (\<Sum>t \<in> {t. t < length row \<and> row ! i < row ! t}. softmax row ! t) \<Longrightarrow>
         out ! i = NegInf"
    and "(\<Sum>t \<in> {t. t < length row \<and> t \<noteq> i \<and> row ! i \<le> row ! t}. softmax row ! t) \<le> p \<Longrightarrow>
         out ! i = row ! i"
proof -
  from i have ne: "row \<noteq> []" by auto
  from i obtain j where j: "j < length row" and ij: "sorted_indices row ! j = i"
    by (rule sorted_position)
  let ?pre = "(\<lambda>m. sorted_indices row ! m) ` {..<j}"
  let ?A = "{t. t < length row \<and> row ! i < row ! t}"
  let ?B = "{t. t < length row \<and> t \<noteq> i \<and> row ! i \<le> row ! t}"
  have AB: "?A \<subseteq> ?pre" "?pre \<subseteq> ?B"
    using above_in_prefix [OF j] prefix_in_not_below [OF j] by (simp_all add: ij)
  have mass: "sum_list (take j (softmax (sorted_logits row))) = (\<Sum>t \<in> ?pre. softmax row ! t)"
    using j by (rule sorted_prefix_mass)
  from top_p_stage_nth [OF p ne j] obtain out' where out': "top_p_stage p row = Inr out'"
    "out' ! (sorted_indices row ! j) =
       (if 0 < j \<and> p < sum_list (take j (softmax (sorted_logits row)))
        then NegInf else row ! (sorted_indices row ! j))"
    by blast
  from out'(1) out have "out' = out" by simp
  with out'(2) have res:
    "out ! i = (if 0 < j \<and> p < (\<Sum>t \<in> ?pre. softmax row ! t) then NegInf else row ! i)"
    unfolding ij mass by simp
  have finB: "finite ?B" by simp
  have nonneg: "\<And>t. t \<in> ?B \<Longrightarrow> 0 \<le> softmax row ! t"
    by (simp add: softmax_nonneg)
  have le1: "(\<Sum>t \<in> ?A. softmax row ! t) \<le> (\<Sum>t \<in> ?pre. softmax row ! t)"
    using AB by (intro sum_mono2) (auto intro!: softmax_nonneg)
  have le2: "(\<Sum>t \<in> ?pre. softmax row ! t) \<le> (\<Sum>t \<in> ?B. softmax row ! t)"
    using AB(2) finB by (intro sum_mono2) (auto intro!: softmax_nonneg)
  {
    assume "\<exists>t < length row. row ! i < row ! t"
      and "p < (\<Sum>t \<in> ?A. softmax row ! t)"
    then have "?A \<noteq> {}" and "p < (\<Sum>t \<in> ?pre. softmax row ! t)"
      using le1 by auto
    with AB(1) have "0 < j" by (cases j) auto
    with \<open>p < (\<Sum>t \<in> ?pre. softmax row ! t)\<close> show "out ! i = NegInf"
      by (simp add: res)
  }
  {
    assume "(\<Sum>t \<in> ?B. softmax row ! t) \<le> p"
    with le2 have "\<not> p < (\<Sum>t \<in> ?pre. softmax row ! t)" by simp
    then show "out ! i = row ! i" by (simp add: res)
  }
qed

lemma filtering_rows_masked:
  assumes p: "p < 1" and res: "top_k_top_p_filtering logits k p = Inr outs"
  shows "\<exists>mid. mapE (top_k_stage k) logits = Inr mid \<and> (k \<le> 0 \<longrightarrow> mid = logits) \<and>
           length mid = length logits \<and> length outs = length logits \<and>
           (\<forall>b < length logits.
              length (outs ! b) = length (mid ! b) \<and>
              (\<forall>j < length (mid ! b).
                 outs ! b ! (sorted_indices (mid ! b) ! j) =
                   (if 0 < j \<and> p < sum_list (take j (softmax (sorted_logits (mid ! b))))
                    then NegInf else mid ! b ! (sorted_indices (mid ! b) ! j))))"
proof -
  from filtering_rows [OF res] obtain mid where mid: "mapE (top_k_stage k) logits = Inr mid"
    and len: "length mid = length logits" "length outs = length logits"
    and rows: "\<forall>b < length logits. top_p_stage p (mid ! b) = Inr (outs ! b)"
    by blast
  have k0: "k \<le> 0 \<longrightarrow> mid = logits"
  proof
    assume "k \<le> 0"
    then have "mapE (top_k_stage k) logits = Inr logits"
      by (intro mapE_Inr_id) (simp add: top_k_stage_disabled)
    with mid show "mid = logits" by simp
  qed
  have "\<forall>b < length logits.
              length (outs ! b) = length (mid ! b) \<and>
              (\<forall>j < length (mid ! b).
                 outs ! b ! (sorted_indices (mid ! b) ! j) =
                   (if 0 < j \<and> p < sum_list (take j (softmax (sorted_logits (mid ! b))))
                    then NegInf else mid ! b ! (sorted_indices (mid ! b) ! j)))"
  proof (intro allI impI)
    fix b assume "b < length logits"
    with rows have r: "top_p_stage p (mid ! b) = Inr (outs ! b)" by simp
    show "length (outs ! b) = length (mid ! b) \<and>
              (\<forall>j < length (mid ! b).
                 outs ! b ! (sorted_indices (mid ! b) ! j) =
                   (if 0 < j \<and> p < sum_list (take j (softmax (sorted_logits (mid ! b))))
                    then NegInf else mid ! b ! (sorted_indices (mid ! b) ! j)))"
    proof (cases "mid ! b = []")
      case True
      with r p show ?thesis by (simp add: top_p_stage_def Let_def)
    next
      case False
      have "length (outs ! b) = length (mid ! b)"
        using top_p_stage_nth [OF p False, of 0] False r by auto
      moreover have "\<forall>j < length (mid ! b).
                 outs ! b ! (sorted_indices (mid ! b) ! j) =
                   (if 0 < j \<and> p < sum_list (take j (softmax (sorted_logits (mid ! b))))
                    then NegInf else mid ! b ! (sorted_indices (mid ! b) ! j))"
      proof (intro allI impI)
        fix j assume "j < length (mid ! b)"
        from top_p_stage_nth [OF p False this] r
        show "outs ! b ! (sorted_indices (mid ! b) ! j) =
                   (if 0 < j \<and> p < sum_list (take j (softmax (sorted_logits (mid ! b))))
                    then NegInf else mid ! b ! (sorted_indices (mid ! b) ! j))"
          by auto
      qed
      ultimately show ?thesis by blast
    qed
  qed
  with mid k0 len show ?thesis by blast
qed

text \<open>
  C4. With \<open>p < 1\<close>, on a non-empty row, the top-p stage returns a row \<open>out\<close> of the same
  length in which the token at sorted position \<open>j\<close> (positions sorted by descending logit)
  is set to \<open>-inf\<close> exactly when \<open>j > 0\<close> and the cumulative softmax probability of the
  \<open>j\<close> tokens before it exceeds \<open>p\<close>: the removal mask "cumulative probability above
  \<open>p\<close>" moved one position to the right. Every other token keeps its logit, so the first
  token that crosses the threshold is kept, and the token at sorted position 0, which holds a
  largest logit of the row, is never masked. The sorted positions are a permutation of all
  positions, so this fixes every entry of \<open>out\<close>. Whatever the order of equal logits: a
  token is masked when the tokens with a strictly larger logit already have more than \<open>p\<close>
  of the probability, and kept when all other tokens with a logit at least as large have at
  most \<open>p\<close>. The filter \<open>top_k_top_p_filtering\<close> does this to every row of what its top-k
  stage leaves (the logits themselves when \<open>k \<le> 0\<close>), and it returns whenever the top-k
  stage does and no row is empty.
\<close>

theorem top_p_masks_shifted_cumulative_tail:
  "(p < 1 \<longrightarrow> row \<noteq> [] \<longrightarrow>
     (\<exists>out. top_p_stage p row = Inr out \<and> length out = length row \<and>
        (\<forall>j < length row.
           out ! (sorted_indices row ! j) =
             (if 0 < j \<and> p < sum_list (take j (softmax (sorted_logits row)))
              then NegInf else row ! (sorted_indices row ! j))) \<and>
        out ! (sorted_indices row ! 0) = row ! (sorted_indices row ! 0) \<and>
        (\<forall>i < length row.
           ((\<exists>t < length row. row ! i < row ! t) \<longrightarrow>
            p < (\<Sum>t \<in> {t. t < length row \<and> row ! i < row ! t}. softmax row ! t) \<longrightarrow>
              out ! i = NegInf) \<and>
           ((\<Sum>t \<in> {t. t < length row \<and> t \<noteq> i \<and> row ! i \<le> row ! t}. softmax row ! t) \<le> p \<longrightarrow>
              out ! i = row ! i)))) \<and>
   mset (sorted_indices row) = mset [0..<length row] \<and>
   sorted_wrt (\<lambda>a b. row ! b \<le> row ! a) (sorted_indices row) \<and>
   (\<forall>x \<in> set row. x \<le> row ! (sorted_indices row ! 0)) \<and>
   (p < 1 \<longrightarrow> top_k_top_p_filtering logits k p = Inr outs \<longrightarrow>
     (\<exists>mid. mapE (top_k_stage k) logits = Inr mid \<and> (k \<le> 0 \<longrightarrow> mid = logits) \<and>
        length mid = length logits \<and> length outs = length logits \<and>
        (\<forall>b < length logits.
           length (outs ! b) = length (mid ! b) \<and>
           (\<forall>j < length (mid ! b).
              outs ! b ! (sorted_indices (mid ! b) ! j) =
                (if 0 < j \<and> p < sum_list (take j (softmax (sorted_logits (mid ! b))))
                 then NegInf else mid ! b ! (sorted_indices (mid ! b) ! j)))))) \<and>
   (p < 1 \<longrightarrow> mapE (top_k_stage k) logits = Inr kept \<longrightarrow> [] \<notin> set logits \<longrightarrow>
     (\<exists>outs. top_k_top_p_filtering logits k p = Inr outs))"
proof (intro conjI impI)
  assume p: "p < 1" and ne: "row \<noteq> []"
  then have 0: "0 < length row" by simp
  from top_p_stage_nth [OF p ne 0] obtain out where
    out: "top_p_stage p row = Inr out" "length out = length row"
      "out ! (sorted_indices row ! 0) = row ! (sorted_indices row ! 0)"
    by auto
  have pos: "\<forall>j < length row.
           out ! (sorted_indices row ! j) =
             (if 0 < j \<and> p < sum_list (take j (softmax (sorted_logits row)))
              then NegInf else row ! (sorted_indices row ! j))"
  proof (intro allI impI)
    fix j assume "j < length row"
    from top_p_stage_nth [OF p ne this] out(1)
    show "out ! (sorted_indices row ! j) =
             (if 0 < j \<and> p < sum_list (take j (softmax (sorted_logits row)))
              then NegInf else row ! (sorted_indices row ! j))"
      by auto
  qed
  have ties: "\<forall>i < length row.
           ((\<exists>t < length row. row ! i < row ! t) \<longrightarrow>
            p < (\<Sum>t \<in> {t. t < length row \<and> row ! i < row ! t}. softmax row ! t) \<longrightarrow>
              out ! i = NegInf) \<and>
           ((\<Sum>t \<in> {t. t < length row \<and> t \<noteq> i \<and> row ! i \<le> row ! t}. softmax row ! t) \<le> p \<longrightarrow>
              out ! i = row ! i)"
    using top_p_stage_any_tie_order [OF p _ out(1)] by blast
  from out pos ties show "\<exists>out. top_p_stage p row = Inr out \<and> length out = length row \<and>
        (\<forall>j < length row.
           out ! (sorted_indices row ! j) =
             (if 0 < j \<and> p < sum_list (take j (softmax (sorted_logits row)))
              then NegInf else row ! (sorted_indices row ! j))) \<and>
        out ! (sorted_indices row ! 0) = row ! (sorted_indices row ! 0) \<and>
        (\<forall>i < length row.
           ((\<exists>t < length row. row ! i < row ! t) \<longrightarrow>
            p < (\<Sum>t \<in> {t. t < length row \<and> row ! i < row ! t}. softmax row ! t) \<longrightarrow>
              out ! i = NegInf) \<and>
           ((\<Sum>t \<in> {t. t < length row \<and> t \<noteq> i \<and> row ! i \<le> row ! t}. softmax row ! t) \<le> p \<longrightarrow>
              out ! i = row ! i))"
    by blast
next
  show "mset (sorted_indices row) = mset [0..<length row]"
    by (rule mset_sorted_indices)
  show "sorted_wrt (\<lambda>a b. row ! b \<le> row ! a) (sorted_indices row)"
    by (rule desc_sorted_indices)
  show "\<forall>x \<in> set row. x \<le> row ! (sorted_indices row ! 0)"
    by (simp add: sorted_indices_head_max)
next
  assume "p < 1" "top_k_top_p_filtering logits k p = Inr outs"
  then show "\<exists>mid. mapE (top_k_stage k) logits = Inr mid \<and> (k \<le> 0 \<longrightarrow> mid = logits) \<and>
        length mid = length logits \<and> length outs = length logits \<and>
        (\<forall>b < length logits.
           length (outs ! b) = length (mid ! b) \<and>
           (\<forall>j < length (mid ! b).
              outs ! b ! (sorted_indices (mid ! b) ! j) =
                (if 0 < j \<and> p < sum_list (take j (softmax (sorted_logits (mid ! b))))
                 then NegInf else mid ! b ! (sorted_indices (mid ! b) ! j))))"
    by (rule filtering_rows_masked)
next
  assume "mapE (top_k_stage k) logits = Inr kept" "[] \<notin> set logits"
  then show "\<exists>outs. top_k_top_p_filtering logits k p = Inr outs"
    by (rule filtering_returns)
qed

lemmas filter_defs = top_k_top_p_filtering_def top_k_stage_def kth_largest_def top_p_stage_def
  all_neg_inf_def cumulative_probs_def cumsum_def softmax_def sorted_logits_def
  sorted_indices_def scatter_def upt_conv_Cons Let_def

lemma top_p_example:
  "top_k_top_p_filtering [[Fin 0, Fin (ln 3), Fin 0]] 0 (1 / 2) =
     Inr [[NegInf, Fin (ln 3), NegInf]]"
  by (simp add: filter_defs)

lemma top_k_top_p_example:
  "top_k_top_p_filtering [[Fin 0, Fin (ln 3), Fin 0, Fin (- 1)]] 3 (1 / 2) =
     Inr [[NegInf, Fin (ln 3), NegInf, NegInf]]"
  by (simp add: filter_defs)

theorem top_p_masks_shifted_cumulative_tail_witness:
  "(1 / 2 :: real) < 1 \<and> [Fin 0, Fin (ln 3), Fin 0] \<noteq> [] \<and>
   [] \<notin> set [[Fin 0, Fin (ln 3), Fin 0]] \<and>
   sorted_indices [Fin 0, Fin (ln 3), Fin 0] = [1, 0, 2] \<and>
   softmax (sorted_logits [Fin 0, Fin (ln 3), Fin 0]) = [3 / 5, 1 / 5, 1 / 5] \<and>
   top_p_stage (1 / 2) [Fin 0, Fin (ln 3), Fin 0] = Inr [NegInf, Fin (ln 3), NegInf] \<and>
   top_k_top_p_filtering [[Fin 0, Fin (ln 3), Fin 0]] 0 (1 / 2) =
     Inr [[NegInf, Fin (ln 3), NegInf]] \<and>
   top_k_top_p_filtering [[Fin 0, Fin (ln 3), Fin 0, Fin (- 1)]] 3 (1 / 2) =
     Inr [[NegInf, Fin (ln 3), NegInf, NegInf]]"
  using top_p_masks_shifted_cumulative_tail [where p = "1 / 2" and row = "[Fin 0, Fin (ln 3), Fin 0]"
      and logits = "[[Fin 0, Fin (ln 3), Fin 0]]" and k = 0
      and outs = "[[NegInf, Fin (ln 3), NegInf]]" and kept = "[[Fin 0, Fin (ln 3), Fin 0]]"]
    top_p_example top_k_top_p_example
  by (simp add: top_p_stage_def all_neg_inf_def cumulative_probs_def cumsum_def softmax_def
      sorted_logits_def sorted_indices_def scatter_def upt_conv_Cons Let_def)

subsection \<open>The repetition penalty in a decode step\<close>

lemma apply_repetition_penalty_rows:
  assumes rp: "1 < rp" and res: "apply_repetition_penalty rp raw ids = Inr pen"
  shows "length pen = length raw \<and>
         (\<forall>b < length ids.
            length (pen ! b) = length (raw ! b) \<and>
            (\<forall>v < length (raw ! b).
               pen ! b ! v = (if int v \<in> set (ids ! b) then penalize rp (raw ! b ! v)
                              else raw ! b ! v)))"
proof -
  from rp res have len: "length ids \<le> length raw"
    by (auto simp: apply_repetition_penalty_def split: if_splits)
  with rp res obtain rows where rows: "mapE (\<lambda>(row, t). penalize_row rp row t) (zip raw ids) = Inr rows"
    and pen: "pen = rows @ drop (length ids) raw"
    by (auto simp: apply_repetition_penalty_def bindE_eq_Inr)
  from mapE_eq_Inr [OF rows] len have lr: "length rows = length ids"
    and each: "\<forall>b < length ids. penalize_row rp (raw ! b) (ids ! b) = Inr (rows ! b)"
    by auto
  have 1: "length pen = length raw"
    using len by (simp add: pen lr)
  have 2: "\<forall>b < length ids.
            length (pen ! b) = length (raw ! b) \<and>
            (\<forall>v < length (raw ! b).
               pen ! b ! v = (if int v \<in> set (ids ! b) then penalize rp (raw ! b ! v)
                              else raw ! b ! v))"
  proof (intro allI impI)
    fix b assume b: "b < length ids"
    with each have e: "penalize_row rp (raw ! b) (ids ! b) = Inr (rows ! b)" by simp
    then have "rows ! b = map (\<lambda>v. if int v \<in> set (ids ! b) then penalize rp (raw ! b ! v)
                                       else raw ! b ! v) [0..<length (raw ! b)]"
      by (simp add: penalize_row_eq split: if_splits)
    moreover have "pen ! b = rows ! b"
      using b by (simp add: pen nth_append lr)
    ultimately show "length (pen ! b) = length (raw ! b) \<and>
            (\<forall>v < length (raw ! b).
               pen ! b ! v = (if int v \<in> set (ids ! b) then penalize rp (raw ! b ! v)
                              else raw ! b ! v))"
      by simp
  qed
  from 1 2 show ?thesis by blast
qed

lemma decode_step_stages:
  assumes "decode_step c h a bsz lti i st = Inr st'"
  shows "\<exists>raw3 pkv raw pen filtered probs.
           infer h (if i = 0 then input_ids st else map (\<lambda>t. [t]) (new_generated_id st))
             (attention_mask st) (past_key_values st) = Inr (raw3, pkv) \<and>
           select_logits c bsz i lti raw3 = Inr raw \<and>
           apply_repetition_penalty (repetition_penalty a) raw (input_ids st) = Inr pen \<and>
           top_k_top_p_filtering (map (map (\<lambda>x. Fin (x / temperature a))) pen) (top_k a) (top_p a)
             = Inr filtered \<and>
           apply_length_penalty c a i (map softmax filtered) = Inr probs \<and>
           draw h a i filtered probs = Inr (new_generated_id st')"
  using assms unfolding decode_step_def
  by (auto simp: bindE_eq_Inr Let_def split: if_splits prod.splits)

text \<open>
  C6. With a penalty of at most 1 the logits pass through unchanged. With a penalty above 1
  (on a batch of as many rows as sequences) every row is treated by \<open>penalize_row\<close> against
  its own sequence; there, when every id of the sequence is a position of the row, the logit at
  each position that occurs in the sequence is multiplied by the penalty if it is negative and
  divided by it otherwise, and every other logit is kept. Every decode step that completes
  does this to the logits the model returned, against \<open>input_ids\<close> of the state it starts
  from: the tokens are drawn from the penalised logits (divided by the temperature, filtered
  and normalised), and the sampled token is appended to the sequence that the next step
  penalises against. In the first state that sequence is the prompt.
\<close>

theorem repetition_penalty_rescales_seen_tokens:
  "(rp \<le> 1 \<longrightarrow> apply_repetition_penalty rp logits ids = Inr logits) \<and>
   (1 < rp \<longrightarrow> length logits = length ids \<longrightarrow>
      apply_repetition_penalty rp logits ids =
        mapE (\<lambda>(row, t). penalize_row rp row t) (zip logits ids)) \<and>
   ((\<forall>t \<in> set row_ids. 0 \<le> t \<and> nat t < length row) \<longrightarrow>
      (\<exists>out. penalize_row rp row row_ids = Inr out \<and> length out = length row \<and>
         (\<forall>v < length row.
            out ! v = (if int v \<in> set row_ids
                       then (if row ! v < 0 then row ! v * rp else row ! v / rp)
                       else row ! v)))) \<and>
   (decode_step c h a bsz lti i st = Inr st' \<longrightarrow>
      (\<exists>raw3 pkv raw pen filtered probs.
         infer h (if i = 0 then input_ids st else map (\<lambda>t. [t]) (new_generated_id st))
           (attention_mask st) (past_key_values st) = Inr (raw3, pkv) \<and>
         select_logits c bsz i lti raw3 = Inr raw \<and>
         apply_repetition_penalty (repetition_penalty a) raw (input_ids st) = Inr pen \<and>
         (repetition_penalty a \<le> 1 \<longrightarrow> pen = raw) \<and>
         (1 < repetition_penalty a \<longrightarrow>
            length pen = length raw \<and>
            (\<forall>b < length (input_ids st).
               length (pen ! b) = length (raw ! b) \<and>
               (\<forall>v < length (raw ! b).
                  pen ! b ! v =
                    (if int v \<in> set (input_ids st ! b)
                     then (if raw ! b ! v < 0 then raw ! b ! v * repetition_penalty a
                           else raw ! b ! v / repetition_penalty a)
                     else raw ! b ! v)))) \<and>
         top_k_top_p_filtering (map (map (\<lambda>x. Fin (x / temperature a))) pen) (top_k a) (top_p a)
           = Inr filtered \<and>
         apply_length_penalty c a i (map softmax filtered) = Inr probs \<and>
         draw h a i filtered probs = Inr (new_generated_id st') \<and>
         input_ids st' = map (\<lambda>(r, t). r @ [t]) (zip (input_ids st) (new_generated_id st')))) \<and>
   input_ids (init_state c h prompt amask) = prompt"
proof (intro conjI impI)
  assume "rp \<le> 1"
  then show "apply_repetition_penalty rp logits ids = Inr logits"
    by (simp add: apply_repetition_penalty_def)
next
  assume "1 < rp" "length logits = length ids"
  then show "apply_repetition_penalty rp logits ids =
      mapE (\<lambda>(row, t). penalize_row rp row t) (zip logits ids)"
    by (simp add: apply_repetition_penalty_def bindE_return)
next
  assume "\<forall>t \<in> set row_ids. 0 \<le> t \<and> nat t < length row"
  then show "\<exists>out. penalize_row rp row row_ids = Inr out \<and> length out = length row \<and>
         (\<forall>v < length row.
            out ! v = (if int v \<in> set row_ids
                       then (if row ! v < 0 then row ! v * rp else row ! v / rp)
                       else row ! v))"
    by (simp add: penalize_row_eq penalize_def)
next
  assume step: "decode_step c h a bsz lti i st = Inr st'"
  from decode_step_stages [OF step] obtain raw3 pkv raw pen filtered probs where
    s: "infer h (if i = 0 then input_ids st else map (\<lambda>t. [t]) (new_generated_id st))
           (attention_mask st) (past_key_values st) = Inr (raw3, pkv)"
      "select_logits c bsz i lti raw3 = Inr raw"
      "apply_repetition_penalty (repetition_penalty a) raw (input_ids st) = Inr pen"
      "top_k_top_p_filtering (map (map (\<lambda>x. Fin (x / temperature a))) pen) (top_k a) (top_p a)
           = Inr filtered"
      "apply_length_penalty c a i (map softmax filtered) = Inr probs"
      "draw h a i filtered probs = Inr (new_generated_id st')"
    by blast
  have off: "repetition_penalty a \<le> 1 \<longrightarrow> pen = raw"
    using s(3) by (auto simp: apply_repetition_penalty_def)
  have on: "1 < repetition_penalty a \<longrightarrow>
            length pen = length raw \<and>
            (\<forall>b < length (input_ids st).
               length (pen ! b) = length (raw ! b) \<and>
               (\<forall>v < length (raw ! b).
                  pen ! b ! v =
                    (if int v \<in> set (input_ids st ! b)
                     then (if raw ! b ! v < 0 then raw ! b ! v * repetition_penalty a
                           else raw ! b ! v / repetition_penalty a)
                     else raw ! b ! v)))"
  proof
    assume "1 < repetition_penalty a"
    from apply_repetition_penalty_rows [OF this s(3)]
    show "length pen = length raw \<and>
            (\<forall>b < length (input_ids st).
               length (pen ! b) = length (raw ! b) \<and>
               (\<forall>v < length (raw ! b).
                  pen ! b ! v =
                    (if int v \<in> set (input_ids st ! b)
                     then (if raw ! b ! v < 0 then raw ! b ! v * repetition_penalty a
                           else raw ! b ! v / repetition_penalty a)
                     else raw ! b ! v)))"
      by (simp add: penalize_def)
  qed
  have grow: "input_ids st' = map (\<lambda>(r, t). r @ [t]) (zip (input_ids st) (new_generated_id st'))"
    using decode_step_shape [OF step] by auto
  from s off on grow show "\<exists>raw3 pkv raw pen filtered probs.
         infer h (if i = 0 then input_ids st else map (\<lambda>t. [t]) (new_generated_id st))
           (attention_mask st) (past_key_values st) = Inr (raw3, pkv) \<and>
         select_logits c bsz i lti raw3 = Inr raw \<and>
         apply_repetition_penalty (repetition_penalty a) raw (input_ids st) = Inr pen \<and>
         (repetition_penalty a \<le> 1 \<longrightarrow> pen = raw) \<and>
         (1 < repetition_penalty a \<longrightarrow>
            length pen = length raw \<and>
            (\<forall>b < length (input_ids st).
               length (pen ! b) = length (raw ! b) \<and>
               (\<forall>v < length (raw ! b).
                  pen ! b ! v =
                    (if int v \<in> set (input_ids st ! b)
                     then (if raw ! b ! v < 0 then raw ! b ! v * repetition_penalty a
                           else raw ! b ! v / repetition_penalty a)
                     else raw ! b ! v)))) \<and>
         top_k_top_p_filtering (map (map (\<lambda>x. Fin (x / temperature a))) pen) (top_k a) (top_p a)
           = Inr filtered \<and>
         apply_length_penalty c a i (map softmax filtered) = Inr probs \<and>
         draw h a i filtered probs = Inr (new_generated_id st') \<and>
         input_ids st' = map (\<lambda>(r, t). r @ [t]) (zip (input_ids st) (new_generated_id st'))"
    by blast
next
  show "input_ids (init_state c h prompt amask) = prompt"
    by (simp add: init_state_def)
qed

lemma peaked_step:
  "decode_step demo_client peaked_host penalty_args 1 [0] 0
     (init_state demo_client peaked_host [[0]] [[1]]) =
   Inr \<lparr>input_ids = [[0, 0]], attention_mask = [[1, 1]], past_key_values = Some (),
        new_generated_id = [0], queue_for_moss_stopwords = [[0]], moss_stop = [False],
        all_shall_stop = [False]\<rparr>"
  by (simp add: run_defs peaked_host_def penalty_args_def upt_conv_Cons)

lemma peaked_penalty:
  "apply_repetition_penalty 2 [[2, 1, 0]] [[0]] = Inr [[1, 1, 0]]"
  by (simp add: apply_repetition_penalty_def penalize_row_def gather_row_def scatter_def
      penalize_def)


lemma unpenalised_step:
  "decode_step demo_client peaked_host (penalty_args\<lparr>repetition_penalty := 1\<rparr>) 1 [0] 0
     (init_state demo_client peaked_host [[0]] [[1]]) =
   Inr \<lparr>input_ids = [[0, 1]], attention_mask = [[1, 1]], past_key_values = Some (),
        new_generated_id = [1], queue_for_moss_stopwords = [[1]], moss_stop = [False],
        all_shall_stop = [False]\<rparr>"
proof -
  have "exp 2 + (exp 1 + 1) \<noteq> (0::real)"
    using exp_gt_zero [of "2::real"] exp_gt_zero [of "1::real"] by linarith
  then show ?thesis
    by (simp add: run_defs peaked_host_def penalty_args_def upt_conv_Cons)
qed

theorem repetition_penalty_rescales_seen_tokens_witness:
  "(1::real) \<le> 1 \<and> (1::real) < 2 \<and> length [[-1, 4, 3::real]] = length [[0, 1, 0::int]] \<and>
   list_all (\<lambda>t. 0 \<le> t \<and> nat t < length [-1, 4, 3::real]) [0, 1, 0::int] \<and>
   apply_repetition_penalty 1 [[-1, 4, 3]] [[0, 1, 0]] = Inr [[-1, 4, 3]] \<and>
   apply_repetition_penalty 2 [[-1, 4, 3]] [[0, 1, 0]] = Inr [[-2, 2, 3]] \<and>
   1 < repetition_penalty penalty_args \<and>
   apply_repetition_penalty (repetition_penalty penalty_args) [[2, 1, 0]] [[0]] = Inr [[1, 1, 0]] \<and>
   decode_step demo_client peaked_host penalty_args 1 [0] 0
       (init_state demo_client peaked_host [[0]] [[1]]) =
     Inr \<lparr>input_ids = [[0, 0]], attention_mask = [[1, 1]], past_key_values = Some (),
        new_generated_id = [0], queue_for_moss_stopwords = [[0]], moss_stop = [False],
        all_shall_stop = [False]\<rparr> \<and>
   decode_step demo_client peaked_host (penalty_args\<lparr>repetition_penalty := 1\<rparr>) 1 [0] 0
       (init_state demo_client peaked_host [[0]] [[1]]) =
     Inr \<lparr>input_ids = [[0, 1]], attention_mask = [[1, 1]], past_key_values = Some (),
        new_generated_id = [1], queue_for_moss_stopwords = [[1]], moss_stop = [False],
        all_shall_stop = [False]\<rparr>"
proof -
  have 1: "apply_repetition_penalty 1 [[-1, 4, 3]] [[0, 1, 0]] = Inr [[-1, 4, 3]]"
    using repetition_penalty_rescales_seen_tokens [where rp = 1 and logits = "[[-1, 4, 3]]" and ids = "[[0, 1, 0]]",
        THEN conjunct1]
    by simp
  have 2: "apply_repetition_penalty 2 [[-1, 4, 3]] [[0, 1, 0]] = Inr [[-2, 2, 3]]"
    using repetition_penalty_rescales_seen_tokens [where rp = 2 and logits = "[[-1, 4, 3]]" and ids = "[[0, 1, 0]]",
        THEN conjunct2, THEN conjunct1]
    by (simp add: penalize_row_eq penalize_def upt_conv_Cons)
  have 3: "1 < repetition_penalty penalty_args"
    by (simp add: penalty_args_def)
  have 4: "apply_repetition_penalty (repetition_penalty penalty_args) [[2, 1, 0]] [[0]] =
      Inr [[1, 1, 0]]"
    using peaked_penalty by (simp add: penalty_args_def)
  show ?thesis
    using 1 2 3 4 peaked_step unpenalised_step by simp
qed

subsection \<open>The markers of the prompt\<close>

lemma prompt_after_instruction:
  "get_moss_style_inputs c =
     get_main_instruction c
     @ concat (map (\<lambda>i. if role i = ''user''
                          then ''<|Human|>: '' @ content i @ ''<eoh>'' @ newline
                          else ''<|MOSS|>: '' @ content i @ ''<eom>'') (history c))"
  by (simp only: get_moss_style_inputs_def foldl_turns)

lemma history_MOSS_Client: "history (MOSS_Client preamble eom hist) = hist"
  by (simp only: MOSS_Client_def client.simps)

text \<open>
  C9 as stated fails on the markers: a user turn does not give \<open><Human>: a<eoh>\<close> with a line
  break after the main instruction, and an assistant turn does not give
  \<open><Assistant>: b<eom>\<close>.
\<close>

theorem prompt_markers_counterexample:
  "get_moss_style_inputs (MOSS_Client ''Hi. '' 7 [\<lparr>role = ''user'', content = ''a''\<rparr>]) \<noteq>
     get_main_instruction (MOSS_Client ''Hi. '' 7 [\<lparr>role = ''user'', content = ''a''\<rparr>])
       @ ''<Human>: a<eoh>'' @ newline \<and>
   get_moss_style_inputs (MOSS_Client ''Hi. '' 7 [\<lparr>role = ''assistant'', content = ''b''\<rparr>]) \<noteq>
     get_main_instruction (MOSS_Client ''Hi. '' 7 [\<lparr>role = ''assistant'', content = ''b''\<rparr>])
       @ ''<Assistant>: b<eom>''"
proof
  have "concat (map (\<lambda>i. if role i = ''user''
                          then ''<|Human|>: '' @ content i @ ''<eoh>'' @ newline
                          else ''<|MOSS|>: '' @ content i @ ''<eom>'')
          [\<lparr>role = ''user'', content = ''a''\<rparr>]) \<noteq> ''<Human>: a<eoh>'' @ newline"
    by (simp add: newline_def)
  then show "get_moss_style_inputs (MOSS_Client ''Hi. '' 7 [\<lparr>role = ''user'', content = ''a''\<rparr>]) \<noteq>
     get_main_instruction (MOSS_Client ''Hi. '' 7 [\<lparr>role = ''user'', content = ''a''\<rparr>])
       @ ''<Human>: a<eoh>'' @ newline"
    by (simp only: prompt_after_instruction history_MOSS_Client same_append_eq not_False_eq_True)
  have "concat (map (\<lambda>i. if role i = ''user''
                          then ''<|Human|>: '' @ content i @ ''<eoh>'' @ newline
                          else ''<|MOSS|>: '' @ content i @ ''<eom>'')
          [\<lparr>role = ''assistant'', content = ''b''\<rparr>]) \<noteq> ''<Assistant>: b<eom>''"
    by simp
  then show "get_moss_style_inputs (MOSS_Client ''Hi. '' 7 [\<lparr>role = ''assistant'', content = ''b''\<rparr>]) \<noteq>
     get_main_instruction (MOSS_Client ''Hi. '' 7 [\<lparr>role = ''assistant'', content = ''b''\<rparr>])
       @ ''<Assistant>: b<eom>''"
    by (simp only: prompt_after_instruction history_MOSS_Client same_append_eq not_False_eq_True)
qed

end
